theory Spec2Isabelle
  imports Complex_Main "HOL-Library.Multiset" "HOL-Library.Sublist" "HOL-Library.Product_Lexorder"
begin

section \<open>dScaff contig indexing: the filter and enrichment pipeline\<close>

text \<open>
  A shallow embedding of \<^verbatim>\<open>contigs_indexing.py\<close>. A file that the \<^verbatim>\<open>csv\<close> module has
  read is the list of its records, each record the list of its fields; a row of
  alignment output is the list (in the source, after line 115, the tuple) of its thirteen
  string fields. Every \<^verbatim>\<open>raise\<close> of the source is a value \<open>Inl e\<close> of a sum type.
\<close>

type_synonym row = "string list"

datatype py_error =
    ValueError string
  | IndexError
  | TypeError
  | OSError string


text \<open>\<^verbatim>\<open>xs[i]\<close> for a literal index \<open>i \<ge> 0\<close>: out of range it raises IndexError.\<close>

definition index :: "'a list \<Rightarrow> nat \<Rightarrow> py_error + 'a" where
  "index xs i = (if i < length xs then Inr (xs ! i) else Inl IndexError)"

text \<open>\<^verbatim>\<open>xs.insert(i, x)\<close> for \<open>i \<ge> 0\<close>: past the end it appends.\<close>

definition list_insert :: "nat \<Rightarrow> 'a \<Rightarrow> 'a list \<Rightarrow> 'a list" where
  "list_insert i x xs = take i xs @ x # drop i xs"

subsection \<open>Floats\<close>

text \<open>
  A Python float is an IEEE binary64 value: a rational number (every finite double is
  one), the negative zero, an infinity or NaN. The comparisons are exact on these values
  and are defined here; every comparison with NaN is false, and the two zeros are equal.
\<close>

datatype pyfloat = Finite rat | NegZero | PosInf | NegInf | NaN

fun fval :: "pyfloat \<Rightarrow> (int \<times> rat) option" where
  "fval (Finite q) = Some (0, q)"
| "fval NegZero = Some (0, 0)"
| "fval PosInf = Some (1, 0)"
| "fval NegInf = Some (-1, 0)"
| "fval NaN = None"

definition flt :: "pyfloat \<Rightarrow> pyfloat \<Rightarrow> bool" where
  "flt a b = (case fval a of None \<Rightarrow> False
              | Some x \<Rightarrow> (case fval b of None \<Rightarrow> False | Some y \<Rightarrow> x < y))"

definition fle :: "pyfloat \<Rightarrow> pyfloat \<Rightarrow> bool" where
  "fle a b = (case fval a of None \<Rightarrow> False
              | Some x \<Rightarrow> (case fval b of None \<Rightarrow> False | Some y \<Rightarrow> x \<le> y))"

definition fge :: "pyfloat \<Rightarrow> pyfloat \<Rightarrow> bool" where
  "fge a b = fle b a"

definition fgt :: "pyfloat \<Rightarrow> pyfloat \<Rightarrow> bool" where
  "fgt a b = flt b a"

text \<open>
  The operations that round (reading a float from a string, printing one, multiplying,
  dividing) are parameters of the model: no theorem below depends on which double they
  return, so each holds for the operations of CPython. \<open>float_of_str s = None\<close> is
  \<^verbatim>\<open>float(s)\<close> raising ValueError. \<^verbatim>\<open>float("nan")\<close> is the constant \<open>NaN\<close> and
  \<^verbatim>\<open>math.inf\<close> is \<open>PosInf\<close>.
\<close>

record float_ops =
  float_of_str :: "string \<Rightarrow> pyfloat option"
  str_of_float :: "pyfloat \<Rightarrow> string"
  float_mul :: "pyfloat \<Rightarrow> pyfloat \<Rightarrow> pyfloat"
  float_div :: "pyfloat \<Rightarrow> pyfloat \<Rightarrow> pyfloat"

subsection \<open>Constants (lines 9 to 23)\<close>

definition FINAL_HEADER :: "string list" where
  "FINAL_HEADER =
    [''query_name'', ''subject_name'', ''identity'', ''length'', ''mismatch'', ''gap'',
     ''query_start'', ''query_end'', ''subject_start'', ''subject_end'',
     ''genomic_start'', ''genomic_end'', ''E_value'', ''bit_score'', ''gene_length'',
     ''ref_scaff'', ''scaff_start'', ''scaff_stop'', ''orientation'', ''contig_length'']"

definition IDX_LENGTH :: nat where "IDX_LENGTH = 3"
definition IDX_EVALUE :: nat where "IDX_EVALUE = 10"
definition IDX_GENELEN :: nat where "IDX_GENELEN = 12"

subsection \<open>Reading a record file (lines 25 to 33)\<close>

text \<open>
  A file as the \<^verbatim>\<open>csv\<close> reader delivers it: \<open>Inr recs\<close> are its records; \<open>Inl e\<close> is a file
  that cannot be opened, decoded or parsed, the exception \<open>e\<close> being raised while reading.
\<close>

type_synonym csv_file = "py_error + string list list"

definition digit_char :: "nat \<Rightarrow> char" where
  "digit_char d = ''0123456789'' ! d"

fun str_of_nat :: "nat \<Rightarrow> string" where
  "str_of_nat n =
     (if n < 10 then [digit_char n]
      else str_of_nat (n div 10) @ [digit_char (n mod 10)])"

fun read_rows_13 :: "string \<Rightarrow> row list \<Rightarrow> string list list \<Rightarrow> py_error + row list" where
  "read_rows_13 path rows [] = Inr rows"
| "read_rows_13 path rows (rec # recs) =
     (if length rec \<noteq> 13
      then Inl (ValueError (path @ '': expected 13 columns, got '' @ str_of_nat (length rec)))
      else read_rows_13 path (rows @ [rec]) recs)"

definition read_tsv_13 :: "string \<Rightarrow> csv_file \<Rightarrow> py_error + row list" where
  "read_tsv_13 path f = (case f of Inl e \<Rightarrow> Inl e | Inr recs \<Rightarrow> read_rows_13 path [] recs)"

subsection \<open>The record filter (lines 93 to 125)\<close>

text \<open>The inner function \<^verbatim>\<open>pick\<close>: its loop carries \<open>out\<close>.\<close>

fun pick_loop :: "float_ops \<Rightarrow> pyfloat \<Rightarrow> row list \<Rightarrow> row list \<Rightarrow> py_error + row list" where
  "pick_loop F thr out [] = Inr out"
| "pick_loop F thr out (r # rs) =
     (case index r IDX_LENGTH of
        Inl e \<Rightarrow> Inl e
      | Inr s \<Rightarrow>
          (case float_of_str F s of
             None \<Rightarrow> pick_loop F thr out rs
           | Some lv \<Rightarrow>
               if fge lv thr then pick_loop F thr (out @ [r]) rs
               else pick_loop F thr out rs))"

definition pick :: "float_ops \<Rightarrow> pyfloat \<Rightarrow> row list \<Rightarrow> pyfloat \<Rightarrow> py_error + row list" where
  "pick F gl rows m = pick_loop F (float_mul F gl m) [] rows"

text \<open>\<^verbatim>\<open>for m in (parm3, parm4, parm5): out = pick(m); if out: return out\<close>, then \<^verbatim>\<open>return []\<close>.\<close>

fun first_tier :: "float_ops \<Rightarrow> pyfloat \<Rightarrow> row list \<Rightarrow> pyfloat list \<Rightarrow> py_error + row list" where
  "first_tier F gl rows [] = Inr []"
| "first_tier F gl rows (m # ms) =
     (case pick F gl rows m of
        Inl e \<Rightarrow> Inl e
      | Inr out \<Rightarrow> if out \<noteq> [] then Inr out else first_tier F gl rows ms)"

text \<open>The body of the \<^verbatim>\<open>try\<close> block, lines 96 to 122.\<close>

definition filter_body ::
  "float_ops \<Rightarrow> string \<Rightarrow> csv_file \<Rightarrow> pyfloat \<Rightarrow> pyfloat \<Rightarrow> pyfloat \<Rightarrow> pyfloat
    \<Rightarrow> py_error + row list" where
  "filter_body F path f parm2 parm3 parm4 parm5 =
     (case read_tsv_13 path f of
        Inl e \<Rightarrow> Inl e
      | Inr rows \<Rightarrow>
          (case rows of
             [] \<Rightarrow> Inr []
           | r0 # _ \<Rightarrow>
               (case index r0 IDX_GENELEN of
                  Inl e \<Rightarrow> Inl e
                | Inr s \<Rightarrow>
                    (case float_of_str F s of
                       None \<Rightarrow> Inr []
                     | Some gl \<Rightarrow>
                         if fle gl parm2 then Inr []
                         else first_tier F gl rows [parm3, parm4, parm5]))))"

fun str_of_error :: "py_error \<Rightarrow> string" where
  "str_of_error (ValueError msg) = msg"
| "str_of_error IndexError = ''list index out of range''"
| "str_of_error TypeError = ''float() argument must be a string or a real number''"
| "str_of_error (OSError msg) = msg"

definition warn_line :: "string \<Rightarrow> py_error \<Rightarrow> string" where
  "warn_line path e = ''[warn] '' @ path @ '': '' @ str_of_error e"

text \<open>
  \<^verbatim>\<open>filter_one_file\<close> returns the rows and, second, the lines it has printed: the handler
  of line 123 turns every exception of the body into a warning and the empty list.
\<close>

definition filter_one_file ::
  "float_ops \<Rightarrow> string \<Rightarrow> csv_file \<Rightarrow> pyfloat \<Rightarrow> pyfloat \<Rightarrow> pyfloat \<Rightarrow> pyfloat
    \<Rightarrow> row list \<times> string list" where
  "filter_one_file F path f parm2 parm3 parm4 parm5 =
     (case filter_body F path f parm2 parm3 parm4 parm5 of
        Inl e \<Rightarrow> ([], [warn_line path e])
      | Inr out \<Rightarrow> (out, []))"

subsection \<open>Strings\<close>

text \<open>
  A string is the list of its characters, a character being a code point below 256.
  \<open>isspace\<close> is \<^verbatim>\<open>str.isspace\<close> on those: the whitespace that \<^verbatim>\<open>strip()\<close> removes and
  \<^verbatim>\<open>split()\<close> splits at.
\<close>

definition isspace :: "char \<Rightarrow> bool" where
  "isspace c = (of_char c \<in> {9, 10, 11, 12, 13, 28, 29, 30, 31, 32, 133, 160 :: nat})"

definition strip :: "string \<Rightarrow> string" where
  "strip s = rev (dropWhile isspace (rev (dropWhile isspace s)))"

text \<open>\<^verbatim>\<open>s.split()\<close>: the maximal runs of characters that are not whitespace.\<close>

fun split_ws_loop :: "string \<Rightarrow> string \<Rightarrow> string list" where
  "split_ws_loop cur [] = (if cur = [] then [] else [cur])"
| "split_ws_loop cur (c # cs) =
     (if isspace c then (if cur = [] then split_ws_loop [] cs else cur # split_ws_loop [] cs)
      else split_ws_loop (cur @ [c]) cs)"

definition split_ws :: "string \<Rightarrow> string list" where
  "split_ws s = split_ws_loop [] s"

text \<open>\<^verbatim>\<open>s.split(sep)\<close> for a one-character separator: empty pieces are kept.\<close>

fun split_on_loop :: "char \<Rightarrow> string \<Rightarrow> string \<Rightarrow> string list" where
  "split_on_loop sep cur [] = [cur]"
| "split_on_loop sep cur (c # cs) =
     (if c = sep then cur # split_on_loop sep [] cs else split_on_loop sep (cur @ [c]) cs)"

definition split_on :: "char \<Rightarrow> string \<Rightarrow> string list" where
  "split_on sep s = split_on_loop sep [] s"

text \<open>Sequencing two steps either of which may raise.\<close>

definition bind_err :: "py_error + 'a \<Rightarrow> ('a \<Rightarrow> py_error + 'b) \<Rightarrow> py_error + 'b" where
  "bind_err r k = (case r of Inl e \<Rightarrow> Inl e | Inr v \<Rightarrow> k v)"

text \<open>
  The ValueError of \<^verbatim>\<open>float(s)\<close>. CPython's message quotes \<open>s\<close> with \<^verbatim>\<open>repr\<close>; the model
  always writes single quotes around it, which is \<^verbatim>\<open>repr\<close> for a string without quotes and
  escapes. No theorem depends on the text of this message.
\<close>

definition float_error :: "string \<Rightarrow> py_error" where
  "float_error s = ValueError (''could not convert string to float: '' @ [CHR 0x27] @ s @ [CHR 0x27])"

subsection \<open>The parameter loader (lines 35 to 66)\<close>

text \<open>A text file is the list of its lines as iteration over the file yields them.\<close>

type_synonym text_file = "py_error + string list"

text \<open>The result is the tuple \<^verbatim>\<open>(parm1, parm2, parm3, parm4, parm5, parm6, parm7, parm8)\<close>.\<close>

type_synonym parameters =
  "pyfloat \<times> pyfloat \<times> pyfloat \<times> pyfloat \<times> pyfloat \<times> pyfloat \<times> pyfloat \<times> pyfloat"

definition third_token :: "string \<Rightarrow> py_error + string" where
  "third_token line =
     (let parts = split_ws line
      in if length parts < 3 then Inl (ValueError (''Bad parameter line: '' @ line))
         else Inr (parts ! 2))"

text \<open>\<^verbatim>\<open>float(third_token(line))\<close>.\<close>

definition plain :: "float_ops \<Rightarrow> string \<Rightarrow> py_error + pyfloat" where
  "plain F line =
     bind_err (third_token line) (\<lambda>tok.
       case float_of_str F tok of None \<Rightarrow> Inl (float_error tok) | Some v \<Rightarrow> Inr v)"

definition special :: "float_ops \<Rightarrow> string \<Rightarrow> py_error + pyfloat" where
  "special F line =
     bind_err (third_token line) (\<lambda>tok.
       let parts = split_on (CHR '','') tok
       in if length parts < 2 then Inl (ValueError (''Expected a comma in 3rd token: '' @ line))
          else (case float_of_str F (parts ! 1) of
                  None \<Rightarrow> Inl (float_error (parts ! 1))
                | Some v \<Rightarrow> Inr (float_div F v (Finite 10))))"

text \<open>\<^verbatim>\<open>lines = [ln.strip() for ln in f if ln.strip()]\<close> and \<^verbatim>\<open>body = lines[1:]\<close>.\<close>

definition body_lines :: "string list \<Rightarrow> string list" where
  "body_lines raw = drop 1 (map strip (filter (\<lambda>ln. strip ln \<noteq> []) raw))"

definition load_parameters :: "float_ops \<Rightarrow> text_file \<Rightarrow> py_error + parameters" where
  "load_parameters F f =
     (case f of
        Inl e \<Rightarrow> Inl e
      | Inr raw \<Rightarrow>
          let body = body_lines raw
          in if length body < 8
             then Inl (ValueError ''parameters file must have at least 8 rows after header'')
             else
               bind_err (plain F (body ! 0)) (\<lambda>p1.
               bind_err (plain F (body ! 1)) (\<lambda>p2.
               bind_err (plain F (body ! 5)) (\<lambda>p6.
               bind_err (plain F (body ! 6)) (\<lambda>p7.
               bind_err (plain F (body ! 7)) (\<lambda>p8.
               bind_err (special F (body ! 2)) (\<lambda>p3.
               bind_err (special F (body ! 3)) (\<lambda>p4.
               bind_err (special F (body ! 4)) (\<lambda>p5.
                 Inr (p1, p2, p3, p4, p5, p6, p7, p8))))))))))"

subsection \<open>The contig length table (lines 68 to 81)\<close>

fun contig_loop ::
  "float_ops \<Rightarrow> (string \<rightharpoonup> pyfloat) \<Rightarrow> string list list \<Rightarrow> py_error + (string \<rightharpoonup> pyfloat)" where
  "contig_loop F contig_len [] = Inr contig_len"
| "contig_loop F contig_len (rec # recs) =
     (if rec = [] then contig_loop F contig_len recs
      else
        bind_err (index rec 0) (\<lambda>name.
        bind_err (index rec 1) (\<lambda>s.
          let val = (case float_of_str F s of None \<Rightarrow> NaN | Some v \<Rightarrow> v)
          in contig_loop F (contig_len(name \<mapsto> val)) recs)))"

definition load_contig_lengths :: "float_ops \<Rightarrow> csv_file \<Rightarrow> py_error + (string \<rightharpoonup> pyfloat)" where
  "load_contig_lengths F f =
     (case f of Inl e \<Rightarrow> Inl e | Inr recs \<Rightarrow> contig_loop F Map.empty recs)"

subsection \<open>Deduplication (lines 150 to 156)\<close>

text \<open>
  \<^verbatim>\<open>for r in base_rows: if r not in seen: seen.add(r); dedup.append(list(r))\<close>.
  The loop carries the set \<open>seen\<close> and the list \<open>dedup\<close> built so far.
\<close>

fun dedup_loop :: "'a set \<Rightarrow> 'a list \<Rightarrow> 'a list \<Rightarrow> 'a list" where
  "dedup_loop seen dedup [] = dedup"
| "dedup_loop seen dedup (r # rs) =
     (if r \<notin> seen then dedup_loop (insert r seen) (dedup @ [r]) rs
      else dedup_loop seen dedup rs)"

definition dedup_rows :: "'a list \<Rightarrow> 'a list" where
  "dedup_rows base_rows = dedup_loop {} [] base_rows"

subsection \<open>The annotation file (lines 129 to 148)\<close>

text \<open>
  \<^verbatim>\<open>csv.DictReader\<close>: the first record holds the field names; every later record that has
  fields becomes a dictionary, the names zipped with the fields from left to right (a
  later duplicate of a name wins), a name without a field getting the value \<^verbatim>\<open>None\<close>.
  Fields beyond the names are filed under the key \<^verbatim>\<open>None\<close>, which no lookup of the source
  reads. A value is \<open>Some s\<close> for the string \<open>s\<close> and \<open>None\<close> for Python's \<^verbatim>\<open>None\<close>.
\<close>

type_synonym dict_row = "string \<rightharpoonup> string option"

definition dict_of :: "string list \<Rightarrow> string list \<Rightarrow> dict_row" where
  "dict_of fieldnames vals =
     fold (\<lambda>(k, v) d. d(k \<mapsto> v))
       (zip fieldnames (map Some vals @ replicate (length fieldnames - length vals) None))
       Map.empty"

definition DictReader :: "string list list \<Rightarrow> dict_row list" where
  "DictReader recs =
     (case recs of
        [] \<Rightarrow> []
      | fieldnames # rest \<Rightarrow> map (dict_of fieldnames) (filter (\<lambda>vals. vals \<noteq> []) rest))"

text \<open>\<^verbatim>\<open>rec.get(k)\<close>, and \<^verbatim>\<open>x or y\<close> on values that are strings or \<^verbatim>\<open>None\<close>.\<close>

definition dict_get :: "dict_row \<Rightarrow> string \<Rightarrow> string option" where
  "dict_get d k = (case d k of None \<Rightarrow> None | Some v \<Rightarrow> v)"

definition truthy :: "string option \<Rightarrow> bool" where
  "truthy v = (case v of None \<Rightarrow> False | Some s \<Rightarrow> s \<noteq> [])"

definition py_or :: "string option \<Rightarrow> string option \<Rightarrow> string option" where
  "py_or x y = (if truthy x then x else y)"

text \<open>
  \<^verbatim>\<open>try: v = float(rec.get(k, "nan")) except ValueError: v = float("nan")\<close>. A name of the
  header that the record has no field for holds \<^verbatim>\<open>None\<close>, and \<^verbatim>\<open>float(None)\<close> raises
  TypeError, which the handler does not catch.
\<close>

definition float_field :: "float_ops \<Rightarrow> dict_row \<Rightarrow> string \<Rightarrow> py_error + pyfloat" where
  "float_field F d k =
     (case d k of
        None \<Rightarrow> Inr NaN
      | Some None \<Rightarrow> Inl TypeError
      | Some (Some s) \<Rightarrow> Inr (case float_of_str F s of None \<Rightarrow> NaN | Some v \<Rightarrow> v))"

type_synonym gene = "pyfloat \<times> pyfloat \<times> string option"

fun genes_loop :: "float_ops \<Rightarrow> (string \<rightharpoonup> gene) \<Rightarrow> dict_row list \<Rightarrow> py_error + (string \<rightharpoonup> gene)" where
  "genes_loop F genes [] = Inr genes"
| "genes_loop F genes (rec # recs) =
     (case py_or (py_or (dict_get rec ''full_id'') (dict_get rec ''fullid'')) (dict_get rec ''id'') of
        None \<Rightarrow> genes_loop F genes recs
      | Some fid \<Rightarrow>
          if fid = [] then genes_loop F genes recs
          else
            bind_err (float_field F rec ''start'') (\<lambda>start.
            bind_err (float_field F rec ''stop'') (\<lambda>stop.
              let scaff = (case rec ''scaff'' of None \<Rightarrow> Some [] | Some v \<Rightarrow> v)
              in genes_loop F (genes(fid \<mapsto> (start, stop, scaff))) recs)))"

text \<open>
  The annotation file is \<open>None\<close> when \<^verbatim>\<open>genes_path.is_file()\<close> is false: the table is then
  empty (and a warning is printed, which the model leaves out, as it does the \<^verbatim>\<open>[ok]\<close>
  line of line 218).
\<close>

definition load_genes :: "float_ops \<Rightarrow> csv_file option \<Rightarrow> py_error + (string \<rightharpoonup> gene)" where
  "load_genes F genes_file =
     (case genes_file of
        None \<Rightarrow> Inr Map.empty
      | Some (Inl e) \<Rightarrow> Inl e
      | Some (Inr recs) \<Rightarrow> genes_loop F Map.empty (DictReader recs))"

subsection \<open>Enrichment of one row (lines 159 to 202)\<close>

text \<open>
  Lines 160 to 165. \<^verbatim>\<open>base[8]\<close> is read and parsed before \<^verbatim>\<open>base[9]\<close> is read; a ValueError
  of either \<^verbatim>\<open>float\<close> gives \<^verbatim>\<open>"minus"\<close>, an IndexError is not caught.
\<close>

definition orientation :: "float_ops \<Rightarrow> row \<Rightarrow> py_error + string" where
  "orientation F base =
     bind_err (index base 8) (\<lambda>s8.
       case float_of_str F s8 of
         None \<Rightarrow> Inr ''minus''
       | Some subj_start \<Rightarrow>
           bind_err (index base 9) (\<lambda>s9.
             case float_of_str F s9 of
               None \<Rightarrow> Inr ''minus''
             | Some subj_end \<Rightarrow> Inr (if flt subj_start subj_end then ''plus'' else ''minus'')))"

text \<open>\<^verbatim>\<open>str(scaff)\<close> for a string or \<^verbatim>\<open>None\<close>.\<close>

definition str_of_opt :: "string option \<Rightarrow> string" where
  "str_of_opt v = (case v of None \<Rightarrow> ''None'' | Some s \<Rightarrow> s)"

text \<open>
  The twenty entries of \<^verbatim>\<open>row_map\<close> read \<^verbatim>\<open>base[0]\<close> to \<^verbatim>\<open>base[19]\<close>, and the output row lists
  them in the order of \<open>FINAL_HEADER\<close>, which is the order of the entries.
\<close>

definition enrich_row ::
  "float_ops \<Rightarrow> (string \<rightharpoonup> gene) \<Rightarrow> (string \<rightharpoonup> pyfloat) \<Rightarrow> row \<Rightarrow> py_error + row" where
  "enrich_row F genes contig_len_map base =
     bind_err (orientation F base) (\<lambda>orient.
     bind_err (index base 0) (\<lambda>qname.
       let (start, stop, scaff) =
             (case genes qname of None \<Rightarrow> (NaN, NaN, Some []) | Some g \<Rightarrow> g)
       in
     bind_err (index base 1) (\<lambda>subj.
       let clen = (case contig_len_map subj of None \<Rightarrow> NaN | Some v \<Rightarrow> v);
           base1 = list_insert IDX_EVALUE (str_of_float F start) base;
           base2 = list_insert (IDX_EVALUE + 1) (str_of_float F stop) base1;
           base3 = base2 @ [str_of_opt scaff, str_of_float F start, str_of_float F stop,
                            orient, str_of_float F clen]
       in if length base3 < 20 then Inl IndexError else Inr (take 20 base3))))"

fun enrich_loop ::
  "float_ops \<Rightarrow> (string \<rightharpoonup> gene) \<Rightarrow> (string \<rightharpoonup> pyfloat) \<Rightarrow> row list \<Rightarrow> row list
    \<Rightarrow> py_error + row list" where
  "enrich_loop F genes contig_len_map out_rows [] = Inr out_rows"
| "enrich_loop F genes contig_len_map out_rows (base # rest) =
     bind_err (enrich_row F genes contig_len_map base) (\<lambda>r.
       enrich_loop F genes contig_len_map (out_rows @ [r]) rest)"

subsection \<open>Sorting (lines 204 to 211)\<close>

text \<open>
  \<^verbatim>\<open>list.sort\<close> of CPython, which compares keys with \<^verbatim>\<open><\<close> only. On a list of fewer than 64
  elements it finds the run the list starts with (\<^verbatim>\<open>count_run\<close>: non-descending, or strictly
  descending and then reversed) and inserts the remaining elements one by one at the
  place a binary search finds (\<^verbatim>\<open>binarysort\<close>). The definitions follow
  \<^verbatim>\<open>Objects/listobject.c\<close> of CPython 3.11. Longer lists are merged from such runs; when
  \<^verbatim>\<open><\<close> orders the keys totally (no NaN among them) the result is the stable sort either
  way, and the theorems below say nothing else about longer lists than that the result is
  a permutation.
\<close>

fun run_asc :: "('a \<Rightarrow> 'a \<Rightarrow> bool) \<Rightarrow> 'a \<Rightarrow> 'a list \<Rightarrow> nat" where
  "run_asc lt prev [] = 0"
| "run_asc lt prev (x # xs) = (if lt x prev then 0 else Suc (run_asc lt x xs))"

fun run_desc :: "('a \<Rightarrow> 'a \<Rightarrow> bool) \<Rightarrow> 'a \<Rightarrow> 'a list \<Rightarrow> nat" where
  "run_desc lt prev [] = 0"
| "run_desc lt prev (x # xs) = (if lt x prev then Suc (run_desc lt x xs) else 0)"

definition count_run :: "('a \<Rightarrow> 'a \<Rightarrow> bool) \<Rightarrow> 'a list \<Rightarrow> nat \<times> bool" where
  "count_run lt xs =
     (case xs of
        x0 # x1 # rest \<Rightarrow>
          if lt x1 x0 then (2 + run_desc lt x1 rest, True)
          else (2 + run_asc lt x1 rest, False)
      | _ \<Rightarrow> (length xs, False))"

function bisect :: "('a \<Rightarrow> 'a \<Rightarrow> bool) \<Rightarrow> 'a \<Rightarrow> 'a list \<Rightarrow> nat \<Rightarrow> nat \<Rightarrow> nat" where
  "bisect lt pivot a l r =
     (if l < r
      then (let p = l + (r - l) div 2
            in if lt pivot (a ! p) then bisect lt pivot a l p
               else bisect lt pivot a (p + 1) r)
      else l)"
  by pat_completeness auto
termination
  by (relation "measure (\<lambda>(lt, pivot, a, l, r). r - l)") auto

declare bisect.simps [simp del]

fun binarysort :: "('a \<Rightarrow> 'a \<Rightarrow> bool) \<Rightarrow> 'a list \<Rightarrow> 'a list \<Rightarrow> 'a list" where
  "binarysort lt a [] = a"
| "binarysort lt a (pivot # rest) =
     (let l = bisect lt pivot a 0 (length a)
      in binarysort lt (take l a @ pivot # drop l a) rest)"

definition timsort :: "('a \<Rightarrow> 'a \<Rightarrow> bool) \<Rightarrow> 'a list \<Rightarrow> 'a list" where
  "timsort lt xs =
     (if length xs < 2 then xs
      else let (n, descending) = count_run lt xs;
               run = (if descending then rev (take n xs) else take n xs)
           in binarysort lt run (drop n xs))"

text \<open>
  \<^verbatim>\<open>xs.sort(key=f)\<close>: the keys of all elements are computed first, an exception of \<open>f\<close>
  leaving the sort; the elements are then ordered by their keys.
\<close>

fun all_keys :: "('a \<Rightarrow> py_error + 'k) \<Rightarrow> 'a list \<Rightarrow> py_error + ('k \<times> 'a) list" where
  "all_keys f [] = Inr []"
| "all_keys f (x # xs) =
     bind_err (f x) (\<lambda>k. bind_err (all_keys f xs) (\<lambda>kxs. Inr ((k, x) # kxs)))"

definition list_sort :: "('a \<Rightarrow> py_error + pyfloat) \<Rightarrow> 'a list \<Rightarrow> py_error + 'a list" where
  "list_sort f xs =
     bind_err (all_keys f xs) (\<lambda>kxs. Inr (map snd (timsort (\<lambda>a b. flt (fst a) (fst b)) kxs)))"

text \<open>\<^verbatim>\<open>FINAL_HEADER.index("genomic_start")\<close>.\<close>

fun index_of :: "'a \<Rightarrow> 'a list \<Rightarrow> nat" where
  "index_of v [] = 0"
| "index_of v (x # xs) = (if x = v then 0 else Suc (index_of v xs))"

definition gs_idx :: nat where
  "gs_idx = index_of ''genomic_start'' FINAL_HEADER"

definition srt :: "float_ops \<Rightarrow> row \<Rightarrow> py_error + pyfloat" where
  "srt F r =
     bind_err (index r gs_idx) (\<lambda>s.
       Inr (case float_of_str F s of None \<Rightarrow> PosInf | Some v \<Rightarrow> v))"

subsection \<open>The enricher (lines 127 to 218)\<close>

text \<open>
  The result is the content of \<^verbatim>\<open>contigs_of_interest.csv\<close>: the header and the sorted rows.
\<close>

definition enrich_and_write ::
  "float_ops \<Rightarrow> row list \<Rightarrow> (string \<rightharpoonup> pyfloat) \<Rightarrow> csv_file option \<Rightarrow> py_error + row list" where
  "enrich_and_write F base_rows contig_len_map genes_file =
     bind_err (load_genes F genes_file) (\<lambda>genes.
     bind_err (enrich_loop F genes contig_len_map [] (dedup_rows base_rows)) (\<lambda>out_rows.
     bind_err (list_sort (srt F) out_rows) (\<lambda>sorted_rows.
       Inr (FINAL_HEADER # sorted_rows))))"

subsection \<open>The run (lines 220 to 261)\<close>





section \<open>The specification's wording of a tier\<close>

text \<open>
  The tier of a multiplier \<open>m\<close>, as the specification words it: the rows of the file, in
  file order, whose length field reads as a float that is at least \<open>gene_length * m\<close>; a
  row whose length field does not read as a float is not in the tier.
\<close>

definition tier_match :: "float_ops \<Rightarrow> pyfloat \<Rightarrow> row \<Rightarrow> bool" where
  "tier_match F thr r =
     (case float_of_str F (r ! IDX_LENGTH) of None \<Rightarrow> False | Some lv \<Rightarrow> fge lv thr)"

definition tier :: "float_ops \<Rightarrow> pyfloat \<Rightarrow> row list \<Rightarrow> pyfloat \<Rightarrow> row list" where
  "tier F gl rows m = filter (tier_match F (float_mul F gl m)) rows"

section \<open>The specification's wording of the parameter file\<close>

text \<open>
  The payload of a body line is its third whitespace-separated token; the fraction of a
  compound payload \<^verbatim>\<open><int>,<frac>\<close> is what stands between its first comma and the next
  comma or the end. The file is rejected when fewer than 8 body lines exist, one of the
  first eight has fewer than 3 tokens, a numeric payload does not read as a float, or a
  compound payload has no comma.
\<close>

definition payload :: "string \<Rightarrow> string" where
  "payload line = split_ws line ! 2"

definition frac_part :: "string \<Rightarrow> string" where
  "frac_part tok = takeWhile (\<lambda>c. c \<noteq> CHR '','') (drop 1 (dropWhile (\<lambda>c. c \<noteq> CHR '','') tok))"

definition params_rejected :: "float_ops \<Rightarrow> string list \<Rightarrow> bool" where
  "params_rejected F body =
     (length body < 8
      \<or> (\<exists>i\<in>{0, 1, 2, 3, 4, 5, 6, 7}. length (split_ws (body ! i)) < 3)
      \<or> (\<exists>i\<in>{0, 1, 5, 6, 7}. float_of_str F (payload (body ! i)) = None)
      \<or> (\<exists>i\<in>{2, 3, 4}. CHR '','' \<notin> set (payload (body ! i))
                      \<or> float_of_str F (frac_part (payload (body ! i))) = None))"

text \<open>A plain line and a compound line that the loader accepts.\<close>

definition plain_ok :: "float_ops \<Rightarrow> string \<Rightarrow> bool" where
  "plain_ok F line = (\<not> length (split_ws line) < 3 \<and> float_of_str F (payload line) \<noteq> None)"

definition special_ok :: "float_ops \<Rightarrow> string \<Rightarrow> bool" where
  "special_ok F line = (\<not> length (split_ws line) < 3 \<and> CHR '','' \<in> set (payload line)
      \<and> float_of_str F (frac_part (payload line)) \<noteq> None)"

section \<open>The specification's wording of the contig length table\<close>

text \<open>
  The table maps the first field of every record that has fields to its second field read
  as a float, NaN when it does not read as one; the last record of a name wins.
\<close>

definition contig_table :: "float_ops \<Rightarrow> string list list \<Rightarrow> (string \<rightharpoonup> pyfloat)" where
  "contig_table F recs =
     map_of (rev (map (\<lambda>r. (r ! 0, case float_of_str F (r ! 1) of None \<Rightarrow> NaN | Some v \<Rightarrow> v))
                      (filter (\<lambda>r. r \<noteq> []) recs)))"

section \<open>The specification's wording of an enriched record\<close>

text \<open>
  The orientation is \<^verbatim>\<open>"plus"\<close> when the subject start (field 8) and the subject end (field 9)
  both read as floats and the start is strictly less than the end.
\<close>

definition is_plus :: "float_ops \<Rightarrow> row \<Rightarrow> bool" where
  "is_plus F base =
     (\<exists>a b. float_of_str F (base ! 8) = Some a \<and> float_of_str F (base ! 9) = Some b \<and> flt a b)"

text \<open>
  The enriched record of a 13-field row: the genomic start and end stand before the E-value
  (the fields from index 10 on move two places right), and the scaffold, the two
  coordinates again, the orientation and the contig length follow the gene length.
  A query name without annotation has the coordinates NaN and the empty scaffold; a
  subject name without length has the length NaN.
\<close>

definition enriched :: "float_ops \<Rightarrow> (string \<rightharpoonup> gene) \<Rightarrow> (string \<rightharpoonup> pyfloat) \<Rightarrow> row \<Rightarrow> row" where
  "enriched F genes contig_len_map base =
     (let (start, stop, scaff) = (case genes (base ! 0) of None \<Rightarrow> (NaN, NaN, Some []) | Some g \<Rightarrow> g);
          clen = (case contig_len_map (base ! 1) of None \<Rightarrow> NaN | Some v \<Rightarrow> v)
      in take 10 base @ [str_of_float F start, str_of_float F stop] @ drop 10 base
         @ [str_of_opt scaff, str_of_float F start, str_of_float F stop,
            if is_plus F base then ''plus'' else ''minus'', str_of_float F clen])"

section \<open>Keys that a comparison orders\<close>

text \<open>
  The comparison \<open>lt\<close> orders the elements of \<open>S\<close> by their keys \<open>f\<close> in a linear order: this
  is what \<^verbatim>\<open>list.sort\<close> expects of \<^verbatim>\<open><\<close>.
\<close>

definition orders_by :: "('a \<Rightarrow> 'a \<Rightarrow> bool) \<Rightarrow> ('a \<Rightarrow> 'k::linorder) \<Rightarrow> 'a set \<Rightarrow> bool" where
  "orders_by lt f S = (\<forall>x\<in>S. \<forall>y\<in>S. lt x y = (f x < f y))"

section \<open>The specification's wording of the sort\<close>

text \<open>
  The sort key of an output row is its genomic start (column 10) read as a float, and
  positive infinity when it does not read as one.
\<close>

definition sort_key_of :: "float_ops \<Rightarrow> row \<Rightarrow> pyfloat" where
  "sort_key_of F r = (case float_of_str F (r ! 10) of None \<Rightarrow> PosInf | Some v \<Rightarrow> v)"

text \<open>The output rows in the order in which \<^verbatim>\<open>out_rows.sort(key=srt)\<close> leaves them.\<close>

definition sorted_rows :: "float_ops \<Rightarrow> row list \<Rightarrow> row list" where
  "sorted_rows F rows =
     map snd (timsort (\<lambda>a b. flt (fst a) (fst b)) (map (\<lambda>r. (sort_key_of F r, r)) rows))"

text \<open>
  No two different rows tie: of their sort keys one is less than the other. (A key that
  is NaN is less than none and none is less than it.)
\<close>

definition untied :: "float_ops \<Rightarrow> row list \<Rightarrow> bool" where
  "untied F rows =
     (\<forall>r\<in>set rows. \<forall>r'\<in>set rows. r \<noteq> r' \<longrightarrow>
        flt (sort_key_of F r) (sort_key_of F r') \<or> flt (sort_key_of F r') (sort_key_of F r))"

text \<open>The place of a float that is not NaN on the extended number line.\<close>

definition fpos :: "pyfloat \<Rightarrow> int \<times> rat" where
  "fpos k = (case fval k of None \<Rightarrow> (0, 0) | Some p \<Rightarrow> p)"

section \<open>An instance of the float operations, for evaluation\<close>

text \<open>
  The theorems below hold for every \<open>float_ops\<close>. To evaluate the program on concrete
  files, \<open>py_ops\<close> reads the decimal literals that \<^verbatim>\<open>float\<close> accepts (sign, digits with
  single underscores between them, fraction, exponent, \<^verbatim>\<open>nan\<close>, \<^verbatim>\<open>inf\<close>, \<^verbatim>\<open>infinity\<close>) and
  computes with their exact values: it does not round to binary64, overflow to an
  infinity, underflow to a zero or print in exponent notation. It agrees with CPython
  wherever the literals, products and quotients involved are doubles that \<^verbatim>\<open>str\<close> prints
  in positional notation; the examples evaluated below use such values only (as 7.5,
  2.5 and 0.5, not 0.9).
\<close>

definition is_digit :: "char \<Rightarrow> bool" where
  "is_digit c = (48 \<le> (of_char c :: nat) \<and> (of_char c :: nat) \<le> 57)"

definition digit_val :: "char \<Rightarrow> nat" where
  "digit_val c = of_char c - 48"

definition lower :: "char \<Rightarrow> char" where
  "lower c =
     (case map_of (zip ''ABCDEFGHIJKLMNOPQRSTUVWXYZ'' ''abcdefghijklmnopqrstuvwxyz'') c of
        None \<Rightarrow> c
      | Some l \<Rightarrow> l)"

fun no_double_us :: "string \<Rightarrow> bool" where
  "no_double_us (a # b # cs) = (\<not> (a = CHR ''_'' \<and> b = CHR ''_'') \<and> no_double_us (b # cs))"
| "no_double_us _ = True"

definition valid_group :: "string \<Rightarrow> bool" where
  "valid_group g = (g \<noteq> [] \<and> is_digit (hd g) \<and> is_digit (last g) \<and> no_double_us g)"

definition group_val :: "string \<Rightarrow> nat" where
  "group_val g = foldl (\<lambda>acc c. acc * 10 + digit_val c) 0 (filter is_digit g)"

definition span_group :: "string \<Rightarrow> string \<times> string" where
  "span_group s = (takeWhile (\<lambda>c. is_digit c \<or> c = CHR ''_'') s, dropWhile (\<lambda>c. is_digit c \<or> c = CHR ''_'') s)"

definition split_sign :: "string \<Rightarrow> bool \<times> string" where
  "split_sign s = (case s of
       c # cs \<Rightarrow> if c = CHR ''-'' then (True, cs) else if c = CHR ''+'' then (False, cs) else (False, s)
     | [] \<Rightarrow> (False, s))"

definition parse_exponent :: "string \<Rightarrow> int option" where
  "parse_exponent r =
     (case r of
        [] \<Rightarrow> Some 0
      | c # cs \<Rightarrow>
          if lower c = CHR ''e'' then
            (let (neg, ds) = split_sign cs; (g, rest) = span_group ds
             in if valid_group g \<and> rest = [] then Some ((if neg then -1 else 1) * int (group_val g))
                else None)
          else None)"

definition pow10 :: "int \<Rightarrow> rat" where
  "pow10 e = (if 0 \<le> e then of_int (10 ^ nat e) else 1 / of_int (10 ^ nat (- e)))"

definition parse_decimal :: "string \<Rightarrow> rat option" where
  "parse_decimal s =
     (let (ip, r1) = span_group s;
          (fp, r2) = (case r1 of c # cs \<Rightarrow> if c = CHR ''.'' then span_group cs else ([], r1)
                      | [] \<Rightarrow> ([], r1))
      in if (ip = [] \<or> valid_group ip) \<and> (fp = [] \<or> valid_group fp) \<and> (ip \<noteq> [] \<or> fp \<noteq> [])
         then (case parse_exponent r2 of
                 None \<Rightarrow> None
               | Some e \<Rightarrow>
                   let nfrac = length (filter is_digit fp) in
                   Some (of_int (int (group_val ip * 10 ^ nfrac + group_val fp)) * pow10 (e - int nfrac)))
         else None)"

text \<open>
  \<^verbatim>\<open>float\<close> strips less than \<^verbatim>\<open>str.strip\<close>: the separators \<^verbatim>\<open>\x1c\<close> to \<^verbatim>\<open>\x1f\<close> stay.
\<close>

definition float_space :: "char \<Rightarrow> bool" where
  "float_space c = (of_char c \<in> {9, 10, 11, 12, 13, 32, 133, 160 :: nat})"

definition float_strip :: "string \<Rightarrow> string" where
  "float_strip s = rev (dropWhile float_space (rev (dropWhile float_space s)))"

definition py_float_of_str :: "string \<Rightarrow> pyfloat option" where
  "py_float_of_str s =
     (let (neg, body) = split_sign (float_strip s); low = map lower body
      in if low = ''nan'' then Some NaN
         else if low = ''inf'' \<or> low = ''infinity'' then Some (if neg then NegInf else PosInf)
         else (case parse_decimal body of
                 None \<Rightarrow> None
               | Some q \<Rightarrow> Some (if q = 0 then (if neg then NegZero else Finite 0)
                                  else Finite (if neg then - q else q))))"

fun frac_digits :: "nat \<Rightarrow> nat \<Rightarrow> nat \<Rightarrow> string" where
  "frac_digits 0 num den = []"
| "frac_digits (Suc fuel) num den =
     (if num = 0 then []
      else digit_char ((num * 10) div den) # frac_digits fuel ((num * 10) mod den) den)"

definition str_of_rat :: "rat \<Rightarrow> string" where
  "str_of_rat q =
     (let (n, d) = quotient_of \<bar>q\<bar>; ip = nat n div nat d; fr = nat n mod nat d
      in (if q < 0 then ''-'' else '''') @ str_of_nat ip @ ''.''
           @ (if fr = 0 then ''0'' else frac_digits 17 fr (nat d)))"

fun py_str_of_float :: "pyfloat \<Rightarrow> string" where
  "py_str_of_float NaN = ''nan''"
| "py_str_of_float PosInf = ''inf''"
| "py_str_of_float NegInf = ''-inf''"
| "py_str_of_float NegZero = ''-0.0''"
| "py_str_of_float (Finite q) = str_of_rat q"

fun is_neg :: "pyfloat \<Rightarrow> bool" where
  "is_neg (Finite q) = (q < 0)"
| "is_neg NegZero = True"
| "is_neg NegInf = True"
| "is_neg _ = False"

fun magnitude :: "pyfloat \<Rightarrow> rat option" where
  "magnitude (Finite q) = Some \<bar>q\<bar>"
| "magnitude NegZero = Some 0"
| "magnitude _ = None"

definition signed :: "bool \<Rightarrow> rat \<Rightarrow> pyfloat" where
  "signed neg q = (if q = 0 then (if neg then NegZero else Finite 0) else Finite (if neg then - q else q))"

definition py_float_mul :: "pyfloat \<Rightarrow> pyfloat \<Rightarrow> pyfloat" where
  "py_float_mul a b =
     (if a = NaN \<or> b = NaN then NaN
      else case (magnitude a, magnitude b) of
             (Some x, Some y) \<Rightarrow> signed (is_neg a \<noteq> is_neg b) (x * y)
           | (None, Some y) \<Rightarrow> if y = 0 then NaN else if is_neg a \<noteq> is_neg b then NegInf else PosInf
           | (Some x, None) \<Rightarrow> if x = 0 then NaN else if is_neg a \<noteq> is_neg b then NegInf else PosInf
           | (None, None) \<Rightarrow> if is_neg a \<noteq> is_neg b then NegInf else PosInf)"

text \<open>
  The source divides by 10.0 only. (A zero divisor, on which Python raises
  ZeroDivisionError, gives NaN here and is never evaluated.)
\<close>

definition py_float_div :: "pyfloat \<Rightarrow> pyfloat \<Rightarrow> pyfloat" where
  "py_float_div a b =
     (if a = NaN \<or> b = NaN then NaN
      else case (magnitude a, magnitude b) of
             (Some x, Some y) \<Rightarrow> if y = 0 then NaN else signed (is_neg a \<noteq> is_neg b) (x / y)
           | (None, Some y) \<Rightarrow> if is_neg a \<noteq> is_neg b then NegInf else PosInf
           | (Some x, None) \<Rightarrow> signed (is_neg a \<noteq> is_neg b) 0
           | (None, None) \<Rightarrow> NaN)"

definition py_ops :: float_ops where
  "py_ops = \<lparr> float_of_str = py_float_of_str, str_of_float = py_str_of_float,
              float_mul = py_float_mul, float_div = py_float_div \<rparr>"



text \<open>The equations that evaluate the instance and the comparisons.\<close>

lemmas py_eval =
  py_ops_def py_float_of_str_def split_sign_def float_strip_def float_space_def lower_def
  parse_decimal_def span_group_def is_digit_def valid_group_def group_val_def digit_val_def
  parse_exponent_def pow10_def digit_char_def py_float_mul_def py_float_div_def signed_def str_of_rat_def
  flt_def fle_def fge_def fgt_def index_def IDX_LENGTH_def IDX_GENELEN_def IDX_EVALUE_def

section \<open>A worked example\<close>

text \<open>
  An annotation file with two genes, and hits of a query on a subject that differ in
  nothing else.
\<close>

definition example_genes :: "csv_file option" where
  "example_genes = Some (Inr [[''full_id'', ''start'', ''stop'', ''scaff''],
                         [''g1'', ''3'', ''9'', ''sc1''], [''g2'', ''1'', ''2'', ''sc1'']])"

definition hit :: "string \<Rightarrow> string \<Rightarrow> row" where
  "hit qname subj = [qname, subj, ''99.0'', ''600'', ''0'', ''0'', ''1'', ''600'', ''100'', ''700'',
                     ''0.0'', ''1000'', ''1000'']"

text \<open>The table that \<open>load_genes\<close> reads from the annotation file.\<close>

definition example_table :: "string \<rightharpoonup> gene" where
  "example_table = [''g1'' \<mapsto> (Finite 3, Finite 9, Some ''sc1''),
                    ''g2'' \<mapsto> (Finite 1, Finite 2, Some ''sc1'')]"




subsection \<open>Facts about deduplication\<close>

fun first_seen :: "'a set \<Rightarrow> 'a list \<Rightarrow> 'a list" where
  "first_seen seen [] = []"
| "first_seen seen (r # rs) =
     (if r \<notin> seen then r # first_seen (insert r seen) rs else first_seen seen rs)"

lemma dedup_loop_first_seen: "dedup_loop seen acc rs = acc @ first_seen seen rs"
  by (induction rs arbitrary: seen acc) simp_all

lemma dedup_rows_first_seen: "dedup_rows rs = first_seen {} rs"
  by (simp add: dedup_rows_def dedup_loop_first_seen)

lemma set_first_seen: "set (first_seen seen rs) = set rs - seen"
  by (induction rs arbitrary: seen) auto

lemma distinct_first_seen: "distinct (first_seen seen rs)"
  by (induction rs arbitrary: seen) (auto simp: set_first_seen)

lemma first_seen_append:
  "first_seen seen (rs @ ts) = first_seen seen rs @ first_seen (seen \<union> set rs) ts"
  by (induction rs arbitrary: seen) (auto simp: insert_absorb)

lemma first_seen_distinct_id: "distinct rs \<Longrightarrow> set rs \<inter> seen = {} \<Longrightarrow> first_seen seen rs = rs"
  by (induction rs arbitrary: seen) auto

lemma dedup_rows_snoc:
  "dedup_rows (rs @ [r]) = (if r \<in> set rs then dedup_rows rs else dedup_rows rs @ [r])"
  by (simp add: dedup_rows_first_seen first_seen_append)

lemma set_dedup_rows: "set (dedup_rows rs) = set rs"
  by (simp add: dedup_rows_first_seen set_first_seen)

lemma distinct_dedup_rows: "distinct (dedup_rows rs)"
  by (simp add: dedup_rows_first_seen distinct_first_seen)

lemma dedup_rows_idem: "dedup_rows (dedup_rows rs) = dedup_rows rs"
  by (simp add: dedup_rows_first_seen first_seen_distinct_id distinct_first_seen)

lemma subseq_first_seen: "subseq (first_seen seen rs) rs"
  by (induction rs arbitrary: seen) auto

text \<open>
  C9. Deduplication compares whole rows for equality, keeps exactly one copy of every
  row of the input, keeps it at the place of its first occurrence (the result is a
  subsequence of the input, and a row appended to the input is appended to the result
  exactly when it did not occur before), and is idempotent.
\<close>

theorem C9_dedup_first_seen_idempotent:
  "distinct (dedup_rows rs) \<and> set (dedup_rows rs) = set rs
   \<and> subseq (dedup_rows rs) rs
   \<and> dedup_rows [] = []
   \<and> dedup_rows (rs @ [r]) = (if r \<in> set rs then dedup_rows rs else dedup_rows rs @ [r])
   \<and> dedup_rows (dedup_rows rs) = dedup_rows rs"
  by (simp add: distinct_dedup_rows set_dedup_rows dedup_rows_snoc dedup_rows_idem)
    (simp add: dedup_rows_first_seen subseq_first_seen)

section \<open>Facts about the record filter\<close>

lemma fgt_not_fle: "fgt a b \<Longrightarrow> \<not> fle a b"
  by (auto simp: fgt_def flt_def fle_def split: option.splits)

lemma read_rows_13_ok:
  "\<forall>r\<in>set recs. length r = 13 \<Longrightarrow> read_rows_13 path acc recs = Inr (acc @ recs)"
  by (induction recs arbitrary: acc) simp_all

lemma read_rows_13_bad:
  "\<forall>r\<in>set good. length r = 13 \<Longrightarrow> length bad \<noteq> 13 \<Longrightarrow>
   read_rows_13 path acc (good @ bad # rest) =
     Inl (ValueError (path @ '': expected 13 columns, got '' @ str_of_nat (length bad)))"
  by (induction good arbitrary: acc) simp_all

lemma read_rows_13_Inr:
  "read_rows_13 path acc recs = Inr rows \<Longrightarrow> rows = acc @ recs \<and> (\<forall>r\<in>set recs. length r = 13)"
proof (induction recs arbitrary: acc)
  case Nil
  then show ?case by simp
next
  case (Cons a recs)
  from Cons.prems have len: "length a = 13"
    by (simp split: if_splits)
  with Cons.prems have "read_rows_13 path (acc @ [a]) recs = Inr rows" by simp
  from Cons.IH [OF this] len show ?case by simp
qed

lemma pick_loop_tier:
  "\<forall>r\<in>set rows. length r = 13 \<Longrightarrow>
   pick_loop F thr out rows = Inr (out @ filter (tier_match F thr) rows)"
  by (induction rows arbitrary: out)
     (auto simp: index_def IDX_LENGTH_def tier_match_def split: option.splits)

lemma pick_tier: "\<forall>r\<in>set rows. length r = 13 \<Longrightarrow> pick F gl rows m = Inr (tier F gl rows m)"
  by (simp add: pick_def tier_def pick_loop_tier)

text \<open>
  C1. A file of 13-column records whose first gene length reads as a float greater than
  \<open>parm2\<close> yields exactly the tier of \<open>parm3\<close> if that is not empty, else exactly the tier
  of \<open>parm4\<close> if that is not empty, else exactly the tier of \<open>parm5\<close> (which is then the
  empty result when all three are empty); nothing is printed. The result is one tier,
  never rows of two.
\<close>

theorem C1_first_nonempty_tier:
  assumes cols: "\<forall>r\<in>set recs. length r = 13"
    and first: "recs = r0 # rest"
    and gl: "float_of_str F (r0 ! IDX_GENELEN) = Some gl"
    and gt: "fgt gl parm2"
  shows "filter_one_file F path (Inr recs) parm2 parm3 parm4 parm5 =
           (if tier F gl recs parm3 \<noteq> [] then tier F gl recs parm3
            else if tier F gl recs parm4 \<noteq> [] then tier F gl recs parm4
            else tier F gl recs parm5, [])"
proof -
  have rd: "read_tsv_13 path (Inr recs) = Inr recs"
    using cols by (simp add: read_tsv_13_def read_rows_13_ok)
  have len0: "length r0 = 13" using cols first by simp
  have idx: "index r0 IDX_GENELEN = Inr (r0 ! IDX_GENELEN)"
    using len0 by (simp add: index_def IDX_GENELEN_def)
  have nle: "\<not> fle gl parm2" using gt by (rule fgt_not_fle)
  have body: "filter_body F path (Inr recs) parm2 parm3 parm4 parm5 =
      first_tier F gl recs [parm3, parm4, parm5]"
    unfolding filter_body_def rd using first idx gl nle by simp
  have tiers: "first_tier F gl recs [parm3, parm4, parm5] =
      Inr (if tier F gl recs parm3 \<noteq> [] then tier F gl recs parm3
            else if tier F gl recs parm4 \<noteq> [] then tier F gl recs parm4
            else tier F gl recs parm5)"
    using cols by (simp add: pick_tier)
  show ?thesis
    unfolding filter_one_file_def body tiers by simp
qed

text \<open>
  C4. A readable file with no record, or whose first record has a gene length field that
  does not read as a float, or reads as one that is at most \<open>parm2\<close>, yields no row,
  whatever the other records hold.
\<close>

theorem C4_gate_gives_empty:
  assumes "recs = [] \<or>
     (\<exists>r0 rest s. recs = r0 # rest \<and> index r0 IDX_GENELEN = Inr s \<and>
        (float_of_str F s = None \<or> (\<exists>gl. float_of_str F s = Some gl \<and> fle gl parm2)))"
  shows "fst (filter_one_file F path (Inr recs) parm2 parm3 parm4 parm5) = []"
proof (cases "read_tsv_13 path (Inr recs)")
  case (Inl e)
  then show ?thesis by (simp add: filter_one_file_def filter_body_def)
next
  case (Inr rows)
  then have "rows = recs"
    using read_rows_13_Inr [of path "[]" recs rows] by (simp add: read_tsv_13_def)
  with Inr assms show ?thesis
    by (auto simp: filter_one_file_def filter_body_def)
qed

text \<open>
  C5. The task returns a value on every input: either rows and nothing printed, or no row
  and one warning line that starts with the path of the file. Every exception of the body
  ends so; in particular a file that cannot be read, and a record whose column count is
  not 13, whose warning reads as line 31 words it.
\<close>

theorem C5_failures_become_warnings:
  "(filter_body F path f parm2 parm3 parm4 parm5 = Inl e \<longrightarrow>
      filter_one_file F path f parm2 parm3 parm4 parm5 = ([], [warn_line path e]))
   \<and> (f = Inl e \<longrightarrow> filter_one_file F path f parm2 parm3 parm4 parm5 = ([], [warn_line path e]))
   \<and> ((\<forall>r\<in>set good. length r = 13) \<and> length bad \<noteq> 13 \<longrightarrow>
        filter_one_file F path (Inr (good @ bad # rest)) parm2 parm3 parm4 parm5 =
          ([], [''[warn] '' @ path @ '': '' @ path @ '': expected 13 columns, got ''
                  @ str_of_nat (length bad)]))
   \<and> ((\<exists>out. filter_one_file F path f parm2 parm3 parm4 parm5 = (out, []))
        \<or> (\<exists>e'. filter_one_file F path f parm2 parm3 parm4 parm5 = ([], [warn_line path e'])))"
proof (intro conjI impI)
  assume "filter_body F path f parm2 parm3 parm4 parm5 = Inl e"
  then show "filter_one_file F path f parm2 parm3 parm4 parm5 = ([], [warn_line path e])"
    by (simp add: filter_one_file_def)
next
  assume "f = Inl e"
  then show "filter_one_file F path f parm2 parm3 parm4 parm5 = ([], [warn_line path e])"
    by (simp add: filter_one_file_def filter_body_def read_tsv_13_def)
next
  assume "(\<forall>r\<in>set good. length r = 13) \<and> length bad \<noteq> 13"
  then show "filter_one_file F path (Inr (good @ bad # rest)) parm2 parm3 parm4 parm5 =
          ([], [''[warn] '' @ path @ '': '' @ path @ '': expected 13 columns, got ''
                  @ str_of_nat (length bad)])"
    by (simp add: filter_one_file_def filter_body_def read_tsv_13_def read_rows_13_bad
        warn_line_def del: str_of_nat.simps)
next
  show "(\<exists>out. filter_one_file F path f parm2 parm3 parm4 parm5 = (out, []))
        \<or> (\<exists>e'. filter_one_file F path f parm2 parm3 parm4 parm5 = ([], [warn_line path e']))"
    by (cases "filter_body F path f parm2 parm3 parm4 parm5") (auto simp: filter_one_file_def)
qed

theorem C1_first_nonempty_tier_witness:
  "filter_one_file py_ops ''2L/queries/a.csv''
     (Inr [[''g1'', ''ctgA'', ''99.0'', ''600'', ''0'', ''0'', ''1'', ''600'', ''100'', ''700'',
            ''0.0'', ''1000'', ''1000''],
           [''g1'', ''ctgB'', ''98.0'', ''100'', ''0'', ''0'', ''1'', ''100'', ''900'', ''800'',
            ''0.0'', ''150'', ''1000'']])
     (Finite 500) (Finite (3 / 4)) (Finite (1 / 2)) (Finite (1 / 4))
   = ([[''g1'', ''ctgA'', ''99.0'', ''600'', ''0'', ''0'', ''1'', ''600'', ''100'', ''700'',
        ''0.0'', ''1000'', ''1000'']], [])"
proof -
  let ?a = "[''g1'', ''ctgA'', ''99.0'', ''600'', ''0'', ''0'', ''1'', ''600'', ''100'', ''700'',
            ''0.0'', ''1000'', ''1000'']"
  let ?b = "[''g1'', ''ctgB'', ''98.0'', ''100'', ''0'', ''0'', ''1'', ''100'', ''900'', ''800'',
            ''0.0'', ''150'', ''1000'']"
  have cols: "\<forall>r\<in>set [?a, ?b]. length r = 13" by simp
  have gl: "float_of_str py_ops (?a ! IDX_GENELEN) = Some (Finite 1000)"
    by (simp add: py_eval)
  have gt: "fgt (Finite 1000) (Finite 500)" by (simp add: py_eval)
  have t3: "tier py_ops (Finite 1000) [?a, ?b] (Finite (3 / 4)) = []"
    by (simp add: tier_def tier_match_def py_eval)
  have t4: "tier py_ops (Finite 1000) [?a, ?b] (Finite (1 / 2)) = [?a]"
    by (simp add: tier_def tier_match_def py_eval)
  show ?thesis
    using C1_first_nonempty_tier [OF cols refl gl gt, of "''2L/queries/a.csv''"
        "Finite (3 / 4)" "Finite (1 / 2)" "Finite (1 / 4)"]
    unfolding t3 t4 by simp
qed

theorem C4_gate_gives_empty_witness:
  "fst (filter_one_file py_ops ''2L/queries/b.csv''
     (Inr [[''g2'', ''ctgA'', ''99.0'', ''600'', ''0'', ''0'', ''1'', ''600'', ''100'', ''700'',
            ''0.0'', ''1000'', ''400''],
           [''stray'']])
     (Finite 500) (Finite (3 / 4)) (Finite (1 / 2)) (Finite (1 / 4))) = []"
proof -
  let ?a = "[''g2'', ''ctgA'', ''99.0'', ''600'', ''0'', ''0'', ''1'', ''600'', ''100'', ''700'',
            ''0.0'', ''1000'', ''400'']"
  have idx: "index ?a IDX_GENELEN = Inr ''400''" by (simp add: py_eval)
  have gl: "float_of_str py_ops ''400'' = Some (Finite 400)" by (simp add: py_eval)
  have le: "fle (Finite 400) (Finite 500)" by (simp add: py_eval)
  have "\<exists>r0 rest s. [?a, [''stray'']] = r0 # rest \<and> index r0 IDX_GENELEN = Inr s \<and>
        (float_of_str py_ops s = None \<or> (\<exists>gl. float_of_str py_ops s = Some gl \<and> fle gl (Finite 500)))"
    using idx gl le by blast
  then show ?thesis
    by (intro C4_gate_gives_empty disjI2)
qed

theorem C5_failures_become_warnings_witness:
  "filter_one_file py_ops ''2L/queries/c.csv'' (Inr [[''a'', ''b'']])
     (Finite 500) (Finite (3 / 4)) (Finite (1 / 2)) (Finite (1 / 4))
   = ([], [''[warn] 2L/queries/c.csv: 2L/queries/c.csv: expected 13 columns, got 2''])
   \<and> filter_one_file py_ops ''2L/queries/d.csv'' (Inl (OSError ''Permission denied''))
     (Finite 500) (Finite (3 / 4)) (Finite (1 / 2)) (Finite (1 / 4))
   = ([], [''[warn] 2L/queries/d.csv: Permission denied''])"
proof -
  have bad: "(\<forall>r\<in>set ([] :: string list list). length r = 13) \<and> length [''a'', ''b''] \<noteq> 13"
    by simp
  have one: "filter_one_file py_ops ''2L/queries/c.csv'' (Inr ([] @ [''a'', ''b''] # []))
     (Finite 500) (Finite (3 / 4)) (Finite (1 / 2)) (Finite (1 / 4))
   = ([], [''[warn] '' @ ''2L/queries/c.csv'' @ '': '' @ ''2L/queries/c.csv''
            @ '': expected 13 columns, got '' @ str_of_nat (length [''a'', ''b''])])"
    using C5_failures_become_warnings [of py_ops "''2L/queries/c.csv''" "Inl IndexError"
        "Finite 500" "Finite (3 / 4)" "Finite (1 / 2)" "Finite (1 / 4)" IndexError "[]"
        "[''a'', ''b'']" "[]"] bad by blast
  have two: "filter_one_file py_ops ''2L/queries/d.csv'' (Inl (OSError ''Permission denied''))
     (Finite 500) (Finite (3 / 4)) (Finite (1 / 2)) (Finite (1 / 4))
   = ([], [warn_line ''2L/queries/d.csv'' (OSError ''Permission denied'')])"
    using C5_failures_become_warnings [of py_ops "''2L/queries/d.csv''"
        "Inl (OSError ''Permission denied'')"
        "Finite 500" "Finite (3 / 4)" "Finite (1 / 2)" "Finite (1 / 4)"
        "OSError ''Permission denied''" "[]" "[''a'']" "[]"] by blast
  show ?thesis
    using one two by (simp add: warn_line_def digit_char_def)
qed

section \<open>Facts about the loaders\<close>


lemma split_on_loop_length:
  "length (split_on_loop sep cur s) = Suc (length (filter (\<lambda>c. c = sep) s))"
  by (induction s arbitrary: cur) auto

lemma split_on_length_lt2: "length (split_on sep s) < 2 \<longleftrightarrow> sep \<notin> set s"
proof -
  have "length (filter (\<lambda>c. c = sep) s) = 0 \<longleftrightarrow> sep \<notin> set s"
    by (auto simp: filter_empty_conv)
  then show ?thesis
    by (simp add: split_on_def split_on_loop_length) 
qed

lemma split_on_loop_hd:
  "hd (split_on_loop sep cur s) = cur @ takeWhile (\<lambda>c. c \<noteq> sep) s"
  by (induction s arbitrary: cur) auto

lemma split_on_loop_second:
  "sep \<in> set s \<Longrightarrow>
   split_on_loop sep cur s ! 1 = takeWhile (\<lambda>c. c \<noteq> sep) (drop 1 (dropWhile (\<lambda>c. c \<noteq> sep) s))"
proof (induction s arbitrary: cur)
  case Nil
  then show ?case by simp
next
  case (Cons c s)
  show ?case
  proof (cases "c = sep")
    case True
    have "split_on_loop sep [] s \<noteq> []"
      using split_on_loop_length [of sep "[]" s] by auto
    then have "split_on_loop sep [] s ! 0 = takeWhile (\<lambda>c. c \<noteq> sep) s"
      using split_on_loop_hd [of sep "[]" s] by (simp add: hd_conv_nth)
    with True show ?thesis by simp
  next
    case False
    with Cons show ?thesis by simp
  qed
qed

lemma split_on_second:
  assumes "CHR '','' \<in> set tok"
  shows "split_on (CHR '','') tok ! 1 = frac_part tok"
  unfolding split_on_def frac_part_def by (rule split_on_loop_second [OF assms])

lemma third_token_ok:
  "\<not> length (split_ws line) < 3 \<Longrightarrow> third_token line = Inr (payload line)"
  by (simp add: third_token_def payload_def Let_def)

lemma third_token_bad:
  "length (split_ws line) < 3 \<Longrightarrow> third_token line = Inl (ValueError (''Bad parameter line: '' @ line))"
  by (simp add: third_token_def Let_def)

lemma plain_cases:
  "plain F line =
     (if length (split_ws line) < 3 then Inl (ValueError (''Bad parameter line: '' @ line))
      else case float_of_str F (payload line) of
             None \<Rightarrow> Inl (float_error (payload line))
           | Some v \<Rightarrow> Inr v)"
  by (simp add: plain_def bind_err_def third_token_ok third_token_bad)

lemma special_cases:
  "special F line =
     (if length (split_ws line) < 3 then Inl (ValueError (''Bad parameter line: '' @ line))
      else if CHR '','' \<notin> set (payload line)
           then Inl (ValueError (''Expected a comma in 3rd token: '' @ line))
      else case float_of_str F (frac_part (payload line)) of
             None \<Rightarrow> Inl (float_error (frac_part (payload line)))
           | Some v \<Rightarrow> Inr (float_div F v (Finite 10)))"
proof -
  have sec: "CHR '','' \<in> set (payload line) \<Longrightarrow>
      split_on (CHR '','') (payload line) ! Suc 0 = frac_part (payload line)"
    using split_on_second [of "payload line"] by simp
  show ?thesis
    using split_on_length_lt2 [of "CHR '',''" "payload line"]
    by (auto simp: special_def bind_err_def third_token_ok third_token_bad Let_def sec
        split: option.splits)
qed

lemma plain_ok_iff: "plain_ok F line \<longleftrightarrow> (\<exists>v. plain F line = Inr v)"
  by (auto simp: plain_ok_def plain_cases split: option.splits)

lemma plain_ok_val: "plain_ok F line \<Longrightarrow> plain F line = Inr (the (float_of_str F (payload line)))"
  by (auto simp: plain_ok_def plain_cases split: option.splits)

lemma plain_not_ok: "\<not> plain_ok F line \<Longrightarrow> \<exists>msg. plain F line = Inl (ValueError msg)"
  by (auto simp: plain_ok_def plain_cases float_error_def split: option.splits)

lemma special_ok_val:
  "special_ok F line \<Longrightarrow>
   special F line = Inr (float_div F (the (float_of_str F (frac_part (payload line)))) (Finite 10))"
  by (auto simp: special_ok_def special_cases split: option.splits)

lemma special_not_ok: "\<not> special_ok F line \<Longrightarrow> \<exists>msg. special F line = Inl (ValueError msg)"
  by (auto simp: special_ok_def special_cases float_error_def split: option.splits)

lemma params_rejected_iff:
  "params_rejected F body \<longleftrightarrow>
     (length body < 8 \<or> \<not> (plain_ok F (body ! 0) \<and> plain_ok F (body ! 1) \<and> plain_ok F (body ! 5)
        \<and> plain_ok F (body ! 6) \<and> plain_ok F (body ! 7) \<and> special_ok F (body ! 2)
        \<and> special_ok F (body ! 3) \<and> special_ok F (body ! 4)))"
  unfolding params_rejected_def plain_ok_def special_ok_def by auto


lemma bind_plain_fails:
  "(\<exists>msg. bind_err (plain F l) k = Inl (ValueError msg)) =
     (\<not> plain_ok F l \<or> (\<exists>msg. k (the (float_of_str F (payload l))) = Inl (ValueError msg)))"
proof (cases "plain_ok F l")
  case True
  then show ?thesis by (simp add: plain_ok_val bind_err_def)
next
  case False
  then show ?thesis using plain_not_ok [OF False] by (auto simp: bind_err_def)
qed

lemma bind_special_fails:
  "(\<exists>msg. bind_err (special F l) k = Inl (ValueError msg)) =
     (\<not> special_ok F l
      \<or> (\<exists>msg. k (float_div F (the (float_of_str F (frac_part (payload l)))) (Finite 10))
             = Inl (ValueError msg)))"
proof (cases "special_ok F l")
  case True
  then show ?thesis by (simp add: special_ok_val bind_err_def)
next
  case False
  then show ?thesis using special_not_ok [OF False] by (auto simp: bind_err_def)
qed

text \<open>
  C8. With the body lines being the stripped non-blank lines after the first, the loader
  succeeds exactly when the file is not rejected, and then \<open>parm1, parm2, parm6, parm7, parm8\<close>
  are the payloads of body lines 0, 1, 5, 6, 7 read as floats and \<open>parm3, parm4, parm5\<close> are
  the fractions of the payloads of body lines 2, 3, 4 read as floats and divided by 10.0;
  a rejected file raises ValueError.
\<close>

theorem C8_load_parameters:
  "(\<not> params_rejected F (body_lines raw) \<longrightarrow>
      (\<exists>p1 p2 p3 p4 p5 p6 p7 p8.
         float_of_str F (payload (body_lines raw ! 0)) = Some p1
         \<and> float_of_str F (payload (body_lines raw ! 1)) = Some p2
         \<and> float_of_str F (frac_part (payload (body_lines raw ! 2))) = Some p3
         \<and> float_of_str F (frac_part (payload (body_lines raw ! 3))) = Some p4
         \<and> float_of_str F (frac_part (payload (body_lines raw ! 4))) = Some p5
         \<and> float_of_str F (payload (body_lines raw ! 5)) = Some p6
         \<and> float_of_str F (payload (body_lines raw ! 6)) = Some p7
         \<and> float_of_str F (payload (body_lines raw ! 7)) = Some p8
         \<and> load_parameters F (Inr raw) =
              Inr (p1, p2, float_div F p3 (Finite 10), float_div F p4 (Finite 10),
                   float_div F p5 (Finite 10), p6, p7, p8)))
   \<and> (params_rejected F (body_lines raw) \<longrightarrow>
        (\<exists>msg. load_parameters F (Inr raw) = Inl (ValueError msg)))"
proof (intro conjI impI)
  let ?b = "body_lines raw"
  assume "\<not> params_rejected F ?b"
  then have len: "\<not> length ?b < 8"
    and ok: "plain_ok F (?b ! 0)" "plain_ok F (?b ! 1)" "plain_ok F (?b ! 5)"
      "plain_ok F (?b ! 6)" "plain_ok F (?b ! 7)"
      "special_ok F (?b ! 2)" "special_ok F (?b ! 3)" "special_ok F (?b ! 4)"
    by (simp_all add: params_rejected_iff)
  have ld: "load_parameters F (Inr raw) =
      Inr (the (float_of_str F (payload (?b ! 0))), the (float_of_str F (payload (?b ! 1))),
           float_div F (the (float_of_str F (frac_part (payload (?b ! 2))))) (Finite 10),
           float_div F (the (float_of_str F (frac_part (payload (?b ! 3))))) (Finite 10),
           float_div F (the (float_of_str F (frac_part (payload (?b ! 4))))) (Finite 10),
           the (float_of_str F (payload (?b ! 5))), the (float_of_str F (payload (?b ! 6))),
           the (float_of_str F (payload (?b ! 7))))"
    using len by (simp add: load_parameters_def Let_def bind_err_def
        plain_ok_val [OF ok(1)] plain_ok_val [OF ok(2)] plain_ok_val [OF ok(3)]
        plain_ok_val [OF ok(4)] plain_ok_val [OF ok(5)]
        special_ok_val [OF ok(6)] special_ok_val [OF ok(7)] special_ok_val [OF ok(8)]
        del: One_nat_def)
  from ok have some:
    "float_of_str F (payload (?b ! 0)) \<noteq> None" "float_of_str F (payload (?b ! 1)) \<noteq> None"
    "float_of_str F (frac_part (payload (?b ! 2))) \<noteq> None"
    "float_of_str F (frac_part (payload (?b ! 3))) \<noteq> None"
    "float_of_str F (frac_part (payload (?b ! 4))) \<noteq> None"
    "float_of_str F (payload (?b ! 5)) \<noteq> None" "float_of_str F (payload (?b ! 6)) \<noteq> None"
    "float_of_str F (payload (?b ! 7)) \<noteq> None"
    by (simp_all add: plain_ok_def special_ok_def)
  show "\<exists>p1 p2 p3 p4 p5 p6 p7 p8.
         float_of_str F (payload (?b ! 0)) = Some p1
         \<and> float_of_str F (payload (?b ! 1)) = Some p2
         \<and> float_of_str F (frac_part (payload (?b ! 2))) = Some p3
         \<and> float_of_str F (frac_part (payload (?b ! 3))) = Some p4
         \<and> float_of_str F (frac_part (payload (?b ! 4))) = Some p5
         \<and> float_of_str F (payload (?b ! 5)) = Some p6
         \<and> float_of_str F (payload (?b ! 6)) = Some p7
         \<and> float_of_str F (payload (?b ! 7)) = Some p8
         \<and> load_parameters F (Inr raw) =
              Inr (p1, p2, float_div F p3 (Finite 10), float_div F p4 (Finite 10),
                   float_div F p5 (Finite 10), p6, p7, p8)"
    unfolding ld using some by (intro exI conjI) (simp_all add: option.collapse)
next
  let ?b = "body_lines raw"
  assume rej: "params_rejected F ?b"
  show "\<exists>msg. load_parameters F (Inr raw) = Inl (ValueError msg)"
  proof (cases "length ?b < 8")
    case True
    then show ?thesis by (simp add: load_parameters_def Let_def)
  next
    case False
    from rej False have bad: "\<not> (plain_ok F (?b ! 0) \<and> plain_ok F (?b ! 1) \<and> plain_ok F (?b ! 5)
        \<and> plain_ok F (?b ! 6) \<and> plain_ok F (?b ! 7) \<and> special_ok F (?b ! 2)
        \<and> special_ok F (?b ! 3) \<and> special_ok F (?b ! 4))"
      by (simp add: params_rejected_iff)
    have unf: "load_parameters F (Inr raw) =
               bind_err (plain F (?b ! 0)) (\<lambda>p1.
               bind_err (plain F (?b ! 1)) (\<lambda>p2.
               bind_err (plain F (?b ! 5)) (\<lambda>p6.
               bind_err (plain F (?b ! 6)) (\<lambda>p7.
               bind_err (plain F (?b ! 7)) (\<lambda>p8.
               bind_err (special F (?b ! 2)) (\<lambda>p3.
               bind_err (special F (?b ! 3)) (\<lambda>p4.
               bind_err (special F (?b ! 4)) (\<lambda>p5.
                 Inr (p1, p2, p3, p4, p5, p6, p7, p8)))))))))"
      using False by (simp add: load_parameters_def Let_def del: One_nat_def)
    show ?thesis
      unfolding unf bind_plain_fails bind_special_fails using bad by simp
  qed
qed


theorem C8_load_parameters_witness:
  "load_parameters py_ops
     (Inr [''name = value'' @ [CHR 0x0A], [CHR 0x0A],
           ''p1 = 100'' @ [CHR 0x0A], ''p2 = 500'' @ [CHR 0x0A], ''p3 = 0,75'' @ [CHR 0x0A],
           ''p4 = 0,5'' @ [CHR 0x0A], ''p5 = 0,25'' @ [CHR 0x0A], ''p6 = 1'' @ [CHR 0x0A],
           ''p7 = 2'' @ [CHR 0x0A], ''p8 = 3''])
   = Inr (Finite 100, Finite 500, Finite (15 / 2), Finite (1 / 2), Finite (5 / 2),
          Finite 1, Finite 2, Finite 3)
   \<and> (\<exists>msg. load_parameters py_ops
         (Inr [''name = value'' @ [CHR 0x0A], ''p1 = 100'' @ [CHR 0x0A], ''p2 = 500'' @ [CHR 0x0A],
               ''p3 = 0.75'' @ [CHR 0x0A], ''p4 = 0,5'' @ [CHR 0x0A], ''p5 = 0,25'' @ [CHR 0x0A],
               ''p6 = 1'' @ [CHR 0x0A], ''p7 = 2'' @ [CHR 0x0A], ''p8 = 3''])
        = Inl (ValueError msg))"
proof -
  let ?raw = "[''name = value'' @ [CHR 0x0A], [CHR 0x0A],
           ''p1 = 100'' @ [CHR 0x0A], ''p2 = 500'' @ [CHR 0x0A], ''p3 = 0,75'' @ [CHR 0x0A],
           ''p4 = 0,5'' @ [CHR 0x0A], ''p5 = 0,25'' @ [CHR 0x0A], ''p6 = 1'' @ [CHR 0x0A],
           ''p7 = 2'' @ [CHR 0x0A], ''p8 = 3'']"
  let ?bad = "[''name = value'' @ [CHR 0x0A], ''p1 = 100'' @ [CHR 0x0A], ''p2 = 500'' @ [CHR 0x0A],
               ''p3 = 0.75'' @ [CHR 0x0A], ''p4 = 0,5'' @ [CHR 0x0A], ''p5 = 0,25'' @ [CHR 0x0A],
               ''p6 = 1'' @ [CHR 0x0A], ''p7 = 2'' @ [CHR 0x0A], ''p8 = 3'']"
  have b: "body_lines ?raw =
      [''p1 = 100'', ''p2 = 500'', ''p3 = 0,75'', ''p4 = 0,5'', ''p5 = 0,25'', ''p6 = 1'',
       ''p7 = 2'', ''p8 = 3'']"
    by (simp add: body_lines_def strip_def isspace_def)
  have b': "body_lines ?bad =
      [''p1 = 100'', ''p2 = 500'', ''p3 = 0.75'', ''p4 = 0,5'', ''p5 = 0,25'', ''p6 = 1'',
       ''p7 = 2'', ''p8 = 3'']"
    by (simp add: body_lines_def strip_def isspace_def)
  have pay: "payload ''p1 = 100'' = ''100''" "payload ''p2 = 500'' = ''500''"
    "payload ''p3 = 0,75'' = ''0,75''" "payload ''p4 = 0,5'' = ''0,5''"
    "payload ''p5 = 0,25'' = ''0,25''" "payload ''p6 = 1'' = ''1''" "payload ''p7 = 2'' = ''2''"
    "payload ''p8 = 3'' = ''3''" "payload ''p3 = 0.75'' = ''0.75''"
    by (simp_all add: payload_def split_ws_def isspace_def)
  have toks: "length (split_ws ''p1 = 100'') = 3" "length (split_ws ''p2 = 500'') = 3"
    "length (split_ws ''p3 = 0,75'') = 3" "length (split_ws ''p4 = 0,5'') = 3"
    "length (split_ws ''p5 = 0,25'') = 3" "length (split_ws ''p6 = 1'') = 3"
    "length (split_ws ''p7 = 2'') = 3" "length (split_ws ''p8 = 3'') = 3"
    by (simp_all add: split_ws_def isspace_def)
  have fr: "frac_part ''0,75'' = ''75''" "frac_part ''0,5'' = ''5''" "frac_part ''0,25'' = ''25''"
    by (simp_all add: frac_part_def)
  have fl: "float_of_str py_ops ''100'' = Some (Finite 100)"
    "float_of_str py_ops ''500'' = Some (Finite 500)"
    "float_of_str py_ops ''75'' = Some (Finite 75)" "float_of_str py_ops ''5'' = Some (Finite 5)"
    "float_of_str py_ops ''3'' = Some (Finite 3)"
    "float_of_str py_ops ''25'' = Some (Finite 25)" "float_of_str py_ops ''1'' = Some (Finite 1)"
    "float_of_str py_ops ''2'' = Some (Finite 2)"
    by (simp_all add: py_eval)
  have dv: "float_div py_ops (Finite 75) (Finite 10) = Finite (15 / 2)"
    "float_div py_ops (Finite 5) (Finite 10) = Finite (1 / 2)"
    "float_div py_ops (Finite 25) (Finite 10) = Finite (5 / 2)"
    by (simp_all add: py_eval)
  have ok: "\<not> params_rejected py_ops (body_lines ?raw)"
    unfolding b by (simp add: params_rejected_def pay toks fr fl)
  have rej: "params_rejected py_ops (body_lines ?bad)"
    unfolding b' by (simp add: params_rejected_def pay)
  have one: "load_parameters py_ops (Inr ?raw)
      = Inr (Finite 100, Finite 500, Finite (15 / 2), Finite (1 / 2), Finite (5 / 2),
          Finite 1, Finite 2, Finite 3)"
    using C8_load_parameters [of py_ops ?raw] ok unfolding b
    by (auto simp: pay fr fl dv)
  have two: "\<exists>msg. load_parameters py_ops (Inr ?bad) = Inl (ValueError msg)"
    using C8_load_parameters [of py_ops ?bad] rej by blast
  show ?thesis using one two by blast
qed

lemma contig_loop_one_field:
  "\<exists>r\<in>set recs. length r = 1 \<Longrightarrow> contig_loop F m recs = Inl IndexError"
proof (induction recs arbitrary: m)
  case Nil
  then show ?case by simp
next
  case (Cons r recs)
  show ?case
  proof (cases "length r = 1")
    case True
    then have "r \<noteq> []" by auto
    with True show ?thesis by (simp add: bind_err_def index_def)
  next
    case False
    with Cons.prems have ex: "\<exists>r\<in>set recs. length r = 1" by simp
    show ?thesis
    proof (cases "r = []")
      case True
      then show ?thesis using Cons.IH [OF ex] by simp
    next
      case ne: False
      with False have "1 < length r" by (cases r) auto
      then show ?thesis using ne Cons.IH [OF ex] by (simp add: bind_err_def index_def Let_def)
    qed
  qed
qed

lemma contig_loop_table:
  "\<forall>r\<in>set recs. length r \<noteq> 1 \<Longrightarrow>
   contig_loop F m recs = Inr (m ++ contig_table F recs)"
proof (induction recs arbitrary: m)
  case Nil
  then show ?case by (simp add: contig_table_def)
next
  case (Cons r recs)
  then have IH: "\<And>m. contig_loop F m recs = Inr (m ++ contig_table F recs)" by simp
  show ?case
  proof (cases "r = []")
    case True
    then show ?thesis using IH by (simp add: contig_table_def)
  next
    case False
    with Cons.prems have "1 < length r" by (cases r) auto
    then show ?thesis using False IH
      by (simp add: bind_err_def index_def Let_def contig_table_def map_add_upd_left)
  qed
qed


lemma contig_loop_skip:
  "contig_loop F m (pre @ [] # post) = contig_loop F m (pre @ post)"
proof (induction pre arbitrary: m)
  case Nil
  show ?case by simp
next
  case (Cons r pre)
  show ?case
  proof (cases "r = []")
    case True
    then show ?thesis by (simp add: Cons.IH)
  next
    case False
    show ?thesis
    proof (cases "index r 1")
      case (Inl e)
      with False show ?thesis by (simp add: bind_err_def split: sum.splits)
    next
      case (Inr s)
      have i0: "index r 0 = Inr (r ! 0)" using False by (simp add: index_def)
      let ?m = "m(r ! 0 \<mapsto> (case float_of_str F s of None \<Rightarrow> NaN | Some v \<Rightarrow> v))"
      have "contig_loop F m ((r # pre) @ [] # post) = contig_loop F ?m (pre @ [] # post)"
        using False Inr i0 by (simp add: bind_err_def)
      also have "\<dots> = contig_loop F ?m (pre @ post)"
        by (rule Cons.IH)
      also have "\<dots> = contig_loop F m ((r # pre) @ post)"
        using False Inr i0 by (simp add: bind_err_def)
      finally show ?thesis .
    qed
  qed
qed

text \<open>
  C10. A record with no field is skipped wherever it stands; a record with exactly one field
  anywhere in the file makes the whole load raise IndexError; without such a record the
  load succeeds and gives the table of the specification, in which a length that does not
  read as a float is NaN.
\<close>

theorem C10_contig_length_rows:
  "load_contig_lengths F (Inr (pre @ [] # post)) = load_contig_lengths F (Inr (pre @ post))
   \<and> ((\<exists>r\<in>set recs. length r = 1) \<longrightarrow> load_contig_lengths F (Inr recs) = Inl IndexError)
   \<and> ((\<forall>r\<in>set recs. length r \<noteq> 1) \<longrightarrow>
        load_contig_lengths F (Inr recs) = Inr (contig_table F recs))"
  by (simp add: load_contig_lengths_def contig_loop_skip contig_loop_one_field
      contig_loop_table)

theorem C10_contig_length_rows_witness:
  "(\<exists>m. load_contig_lengths py_ops (Inr [[''ctgA'', ''1500''], [], [''ctgB'', ''n/a'']]) = Inr m
        \<and> m ''ctgA'' = Some (Finite 1500) \<and> m ''ctgB'' = Some NaN \<and> m ''ctgC'' = None)
   \<and> load_contig_lengths py_ops (Inr [[''ctgA'', ''1500''], [''ctgB'']]) = Inl IndexError"
proof -
  have ok: "\<forall>r\<in>set [[''ctgA'', ''1500''], [], [''ctgB'', ''n/a'']]. length r \<noteq> 1" by simp
  have bad: "\<exists>r\<in>set [[''ctgA'', ''1500''], [''ctgB'']]. length r = 1" by simp
  have fl: "float_of_str py_ops ''1500'' = Some (Finite 1500)" "float_of_str py_ops ''n/a'' = None"
    by (simp_all add: py_eval)
  have one: "load_contig_lengths py_ops (Inr [[''ctgA'', ''1500''], [], [''ctgB'', ''n/a'']])
      = Inr (contig_table py_ops [[''ctgA'', ''1500''], [], [''ctgB'', ''n/a'']])"
    using C10_contig_length_rows [of py_ops "[]" "[]" "[[''ctgA'', ''1500''], [], [''ctgB'', ''n/a'']]"] ok
    by blast
  have two: "load_contig_lengths py_ops (Inr [[''ctgA'', ''1500''], [''ctgB'']]) = Inl IndexError"
    using C10_contig_length_rows [of py_ops "[]" "[]" "[[''ctgA'', ''1500''], [''ctgB'']]"] bad
    by blast
  show ?thesis
    unfolding one two by (simp add: contig_table_def fl)
qed

section \<open>Facts about sorting\<close>


lemma orders_by_subset: "orders_by lt f S \<Longrightarrow> T \<subseteq> S \<Longrightarrow> orders_by lt f T"
  by (auto simp: orders_by_def)

lemma orders_byD: "orders_by lt f S \<Longrightarrow> x \<in> S \<Longrightarrow> y \<in> S \<Longrightarrow> lt x y = (f x < f y)"
  by (simp add: orders_by_def)

lemma mset_binarysort: "mset (binarysort lt a rest) = mset a + mset rest"
proof (induction rest arbitrary: a)
  case Nil
  show ?case by simp
next
  case (Cons pivot rest)
  have td: "mset (take l a) + mset (drop l a) = mset a" for l
    unfolding mset_append [symmetric] by simp
  have "mset (take l a @ pivot # drop l a) = add_mset pivot (mset a)" for l
    using td [of l] by simp
  then show ?case by (simp add: Cons.IH Let_def)
qed

lemma run_asc_le: "run_asc lt p xs \<le> length xs"
  by (induction xs arbitrary: p) auto

lemma run_desc_le: "run_desc lt p xs \<le> length xs"
  by (induction xs arbitrary: p) auto

lemma fst_count_run_le: "fst (count_run lt xs) \<le> length xs"
  by (auto simp: count_run_def run_asc_le run_desc_le split: list.splits)

lemma mset_timsort: "mset (timsort lt xs) = mset xs"
proof (cases "length xs < 2")
  case True
  then show ?thesis by (simp add: timsort_def)
next
  case False
  obtain n d where nd: "count_run lt xs = (n, d)" by (cases "count_run lt xs")
  have "mset (take n xs) + mset (drop n xs) = mset xs"
    unfolding mset_append [symmetric] by simp
  then have "mset (if d then rev (take n xs) else take n xs) + mset (drop n xs) = mset xs"
    by simp
  with False nd show ?thesis
    by (simp add: timsort_def mset_binarysort)
qed

lemma bisect_spec:
  assumes "orders_by lt f (insert pivot (set a))" and "sorted (map f a)"
    and "l \<le> r" and "r \<le> length a"
    and "\<forall>i<l. f (a ! i) \<le> f pivot"
    and "\<forall>i. r \<le> i \<and> i < length a \<longrightarrow> f pivot < f (a ! i)"
  shows "l \<le> bisect lt pivot a l r \<and> bisect lt pivot a l r \<le> r
    \<and> (\<forall>i<bisect lt pivot a l r. f (a ! i) \<le> f pivot)
    \<and> (\<forall>i. bisect lt pivot a l r \<le> i \<and> i < length a \<longrightarrow> f pivot < f (a ! i))"
  using assms
proof (induction lt pivot a l r rule: bisect.induct)
  case (1 lt pivot a l r)
  show ?case
  proof (cases "l < r")
    case False
    with "1.prems" have "l = r" by simp
    have "bisect lt pivot a r r = r" by (subst bisect.simps) simp
    with \<open>l = r\<close> "1.prems" show ?thesis by simp
  next
    case True
    define p where "p = l + (r - l) div 2"
    have lp: "l \<le> p" and pr: "p < r" using True by (auto simp: p_def)
    have pa: "p < length a" using pr "1.prems"(4) by simp
    have mono: "\<And>i j. i \<le> j \<Longrightarrow> j < length a \<Longrightarrow> f (a ! i) \<le> f (a ! j)"
      using "1.prems"(2) by (simp add: sorted_iff_nth_mono)
    have cmp: "lt pivot (a ! p) = (f pivot < f (a ! p))"
      using orders_byD [OF "1.prems"(1), of pivot "a ! p"] pa by simp
    show ?thesis
    proof (cases "lt pivot (a ! p)")
      case lt: True
      have hi: "\<forall>i. p \<le> i \<and> i < length a \<longrightarrow> f pivot < f (a ! i)"
      proof (intro allI impI)
        fix i assume "p \<le> i \<and> i < length a"
        then have "f (a ! p) \<le> f (a ! i)" using mono by simp
        with lt cmp show "f pivot < f (a ! i)" by simp
      qed
      have IH: "l \<le> bisect lt pivot a l p \<and> bisect lt pivot a l p \<le> p
        \<and> (\<forall>i<bisect lt pivot a l p. f (a ! i) \<le> f pivot)
        \<and> (\<forall>i. bisect lt pivot a l p \<le> i \<and> i < length a \<longrightarrow> f pivot < f (a ! i))"
        using "1.IH"(1) [OF True p_def lt "1.prems"(1,2) lp _ "1.prems"(5) hi] pa by simp
      have eq: "bisect lt pivot a l r = bisect lt pivot a l p"
        using True lt by (subst bisect.simps) (simp add: p_def Let_def)
      show ?thesis unfolding eq using IH pr by auto
    next
      case nlt: False
      have lo: "\<forall>i<p + 1. f (a ! i) \<le> f pivot"
      proof (intro allI impI)
        fix i assume "i < p + 1"
        then have "f (a ! i) \<le> f (a ! p)" using mono pa by simp
        with nlt cmp show "f (a ! i) \<le> f pivot" by simp
      qed
      have IH: "p + 1 \<le> bisect lt pivot a (p + 1) r \<and> bisect lt pivot a (p + 1) r \<le> r
        \<and> (\<forall>i<bisect lt pivot a (p + 1) r. f (a ! i) \<le> f pivot)
        \<and> (\<forall>i. bisect lt pivot a (p + 1) r \<le> i \<and> i < length a \<longrightarrow> f pivot < f (a ! i))"
        using "1.IH"(2) [OF True p_def nlt "1.prems"(1,2) _ "1.prems"(4) lo "1.prems"(6)] pr
        by simp
      have eq: "bisect lt pivot a l r = bisect lt pivot a (p + 1) r"
        using True nlt by (subst bisect.simps) (simp add: p_def Let_def)
      show ?thesis unfolding eq using IH lp by auto
    qed
  qed
qed


lemma insert_at_bisect:
  assumes ag: "orders_by lt f (insert pivot (set a))" and so: "sorted (map f a)"
  defines "p \<equiv> bisect lt pivot a 0 (length a)"
  shows "sorted (map f (take p a @ pivot # drop p a))"
    and "\<forall>x\<in>set (drop p a). f pivot < f x"
proof -
  have sp: "p \<le> length a \<and> (\<forall>i<p. f (a ! i) \<le> f pivot)
      \<and> (\<forall>i. p \<le> i \<and> i < length a \<longrightarrow> f pivot < f (a ! i))"
  proof -
    have h3: "\<forall>i<0. f (a ! i) \<le> f pivot" by simp
    have h4: "\<forall>i. length a \<le> i \<and> i < length a \<longrightarrow> f pivot < f (a ! i)" by auto
    show ?thesis
      unfolding p_def using bisect_spec [OF ag so le0 le_refl h3 h4] by simp
  qed
  have lo: "\<forall>x\<in>set (take p a). f x \<le> f pivot"
  proof
    fix x assume "x \<in> set (take p a)"
    then obtain i where "i < length (take p a)" "take p a ! i = x"
      by (auto simp: in_set_conv_nth)
    then show "f x \<le> f pivot" using sp by auto
  qed
  show hi: "\<forall>x\<in>set (drop p a). f pivot < f x"
  proof
    fix x assume "x \<in> set (drop p a)"
    then obtain i where i: "i < length (drop p a)" "drop p a ! i = x"
      by (auto simp: in_set_conv_nth)
    then have "p + i < length a" "a ! (p + i) = x" using sp by auto
    then show "f pivot < f x" using sp by (metis le_add1)
  qed
  have st: "sorted (map f (take p a))" and sd: "sorted (map f (drop p a))"
    using so by (simp_all add: sorted_map sorted_wrt_take sorted_wrt_drop)
  have cross: "\<forall>x\<in>set (take p a). \<forall>y\<in>set (drop p a). f x \<le> f y"
    using lo hi by fastforce
  show "sorted (map f (take p a @ pivot # drop p a))"
    using st sd lo hi cross by (auto simp: sorted_append less_imp_le)
qed

lemma binarysort_sorted_stable:
  assumes "orders_by lt f (set a \<union> set rest)" and "sorted (map f a)"
  shows "sorted (map f (binarysort lt a rest))
    \<and> (\<forall>k. filter (\<lambda>x. f x = k) (binarysort lt a rest)
           = filter (\<lambda>x. f x = k) a @ filter (\<lambda>x. f x = k) rest)"
  using assms
proof (induction rest arbitrary: a)
  case Nil
  then show ?case by simp
next
  case (Cons pivot rest)
  define p where "p = bisect lt pivot a 0 (length a)"
  let ?a' = "take p a @ pivot # drop p a"
  have ag: "orders_by lt f (insert pivot (set a))"
    using Cons.prems(1) by (rule orders_by_subset) auto
  have so': "sorted (map f ?a')" and hi: "\<forall>x\<in>set (drop p a). f pivot < f x"
    unfolding p_def using insert_at_bisect [OF ag Cons.prems(2)] by simp_all
  have "set (take p a) \<union> set (drop p a) = set a"
    unfolding set_append [symmetric] by simp
  then have seta: "set ?a' = insert pivot (set a)" by simp
  have ag': "orders_by lt f (set ?a' \<union> set rest)"
    using Cons.prems(1) unfolding seta by (rule orders_by_subset) auto
  have stab: "filter (\<lambda>x. f x = k) ?a' = filter (\<lambda>x. f x = k) a @ filter (\<lambda>x. f x = k) [pivot]" for k
  proof (cases "f pivot = k")
    case True
    have "filter (\<lambda>x. f x = k) (drop p a) = []"
      using hi True by (auto simp: filter_empty_conv)
    moreover have "filter (\<lambda>x. f x = k) a
        = filter (\<lambda>x. f x = k) (take p a) @ filter (\<lambda>x. f x = k) (drop p a)"
      unfolding filter_append [symmetric] by simp
    ultimately show ?thesis using True by simp
  next
    case False
    have "filter (\<lambda>x. f x = k) a
        = filter (\<lambda>x. f x = k) (take p a) @ filter (\<lambda>x. f x = k) (drop p a)"
      unfolding filter_append [symmetric] by simp
    then show ?thesis using False by simp
  qed
  have step: "binarysort lt a (pivot # rest) = binarysort lt ?a' rest"
    by (simp add: p_def Let_def)
  from Cons.IH [OF ag' so'] have S: "sorted (map f (binarysort lt ?a' rest))"
    and Fl: "\<And>k. filter (\<lambda>x. f x = k) (binarysort lt ?a' rest)
           = filter (\<lambda>x. f x = k) ?a' @ filter (\<lambda>x. f x = k) rest"
    by blast+
  show ?case
    unfolding step
  proof (intro conjI allI)
    show "sorted (map f (binarysort lt ?a' rest))" by (rule S)
  next
    fix k
    have "filter (\<lambda>x. f x = k) (binarysort lt ?a' rest)
        = filter (\<lambda>x. f x = k) ?a' @ filter (\<lambda>x. f x = k) rest"
      by (rule Fl)
    also have "filter (\<lambda>x. f x = k) ?a' = filter (\<lambda>x. f x = k) a @ filter (\<lambda>x. f x = k) [pivot]"
      by (rule stab)
    also have "(filter (\<lambda>x. f x = k) a @ filter (\<lambda>x. f x = k) [pivot]) @ filter (\<lambda>x. f x = k) rest
        = filter (\<lambda>x. f x = k) a @ filter (\<lambda>x. f x = k) (pivot # rest)"
      by simp
    finally show "filter (\<lambda>x. f x = k) (binarysort lt ?a' rest)
        = filter (\<lambda>x. f x = k) a @ filter (\<lambda>x. f x = k) (pivot # rest)" .
  qed
qed

lemma run_asc_sorted:
  "orders_by lt f (insert p (set xs)) \<Longrightarrow> sorted (map f (p # take (run_asc lt p xs) xs))"
proof (induction xs arbitrary: p)
  case Nil
  show ?case by simp
next
  case (Cons x xs)
  have cmp: "lt x p = (f x < f p)"
    using orders_byD [OF Cons.prems, of x p] by simp
  show ?case
  proof (cases "lt x p")
    case True
    then show ?thesis by simp
  next
    case False
    have "orders_by lt f (insert x (set xs))"
      using Cons.prems by (rule orders_by_subset) auto
    from Cons.IH [OF this] False cmp show ?thesis by auto
  qed
qed

lemma run_desc_sorted:
  "orders_by lt f (insert p (set xs)) \<Longrightarrow>
   sorted_wrt (\<lambda>x y. f y < f x) (p # take (run_desc lt p xs) xs)"
proof (induction xs arbitrary: p)
  case Nil
  show ?case by simp
next
  case (Cons x xs)
  have cmp: "lt x p = (f x < f p)"
    using orders_byD [OF Cons.prems, of x p] by simp
  show ?case
  proof (cases "lt x p")
    case False
    then show ?thesis by simp
  next
    case True
    have "orders_by lt f (insert x (set xs))"
      using Cons.prems by (rule orders_by_subset) auto
    from Cons.IH [OF this] True cmp show ?thesis by auto
  qed
qed


lemma filter_rev_strict:
  fixes f :: "'a \<Rightarrow> 'k::linorder"
  shows "sorted_wrt (\<lambda>x y. f y < f x) ys \<Longrightarrow>
   filter (\<lambda>x. f x = k) (rev ys) = filter (\<lambda>x. f x = k) ys"
proof (induction ys)
  case Nil
  show ?case by simp
next
  case (Cons y ys)
  then have IH: "filter (\<lambda>x. f x = k) (rev ys) = filter (\<lambda>x. f x = k) ys"
    and below: "\<forall>z\<in>set ys. f z < f y" by simp_all
  show ?case
  proof (cases "f y = k")
    case True
    have "f z \<noteq> k" if "z \<in> set ys" for z
      using below that True by fastforce
    then have "filter (\<lambda>x. f x = k) ys = []"
      by (simp add: filter_empty_conv)
    with True IH show ?thesis by simp
  next
    case False
    with IH show ?thesis by simp
  qed
qed

lemma sorted_rev_strict:
  fixes f :: "'a \<Rightarrow> 'k::linorder"
  shows "sorted_wrt (\<lambda>x y. f y < f x) ys \<Longrightarrow> sorted (map f (rev ys))"
proof -
  assume "sorted_wrt (\<lambda>x y. f y < f x) ys"
  then have "sorted_wrt (\<lambda>x y. f x < f y) (rev ys)"
    by (simp add: sorted_wrt_rev)
  then have "sorted_wrt (\<lambda>x y. f x \<le> f y) (rev ys)"
    by (rule sorted_wrt_mono_rel [rotated]) simp
  then show ?thesis by (simp add: sorted_map)
qed

lemma first_run:
  assumes ag: "orders_by lt f (set xs)" and len: "\<not> length xs < 2"
    and nd: "count_run lt xs = (n, d)"
  defines "run \<equiv> (if d then rev (take n xs) else take n xs)"
  shows "sorted (map f run)"
    and "filter (\<lambda>x. f x = k) run = filter (\<lambda>x. f x = k) (take n xs)"
    and "set run \<union> set (drop n xs) = set xs"
proof -
  from len obtain x0 x1 rest where xs: "xs = x0 # x1 # rest"
    by (cases xs; cases "tl xs") auto
  have cmp: "lt x1 x0 = (f x1 < f x0)"
    using orders_byD [OF ag, of x1 x0] xs by simp
  have ag1: "orders_by lt f (insert x1 (set rest))"
    using ag unfolding xs by (rule orders_by_subset) auto
  have "set (take n xs) \<union> set (drop n xs) = set xs"
    unfolding set_append [symmetric] by simp
  then show "set run \<union> set (drop n xs) = set xs" by (simp add: run_def)
  show "sorted (map f run)"
  proof (cases "lt x1 x0")
    case True
    with nd have n: "n = 2 + run_desc lt x1 rest" and d: "d" by (simp_all add: count_run_def xs)
    have "sorted_wrt (\<lambda>x y. f y < f x) (x1 # take (run_desc lt x1 rest) rest)"
      by (rule run_desc_sorted [OF ag1])
    then have "sorted_wrt (\<lambda>x y. f y < f x) (take n xs)"
      using True cmp by (auto simp: n xs)
    then show ?thesis using d by (simp add: run_def sorted_rev_strict)
  next
    case False
    with nd have n: "n = 2 + run_asc lt x1 rest" and d: "\<not> d" by (simp_all add: count_run_def xs)
    have "sorted (map f (x1 # take (run_asc lt x1 rest) rest))"
      by (rule run_asc_sorted [OF ag1])
    then have "sorted (map f (take n xs))"
      using False cmp by (auto simp: n xs)
    then show ?thesis using d by (simp add: run_def)
  qed
  show "filter (\<lambda>x. f x = k) run = filter (\<lambda>x. f x = k) (take n xs)"
  proof (cases "lt x1 x0")
    case True
    with nd have n: "n = 2 + run_desc lt x1 rest" and d: "d" by (simp_all add: count_run_def xs)
    have "sorted_wrt (\<lambda>x y. f y < f x) (x1 # take (run_desc lt x1 rest) rest)"
      by (rule run_desc_sorted [OF ag1])
    then have "sorted_wrt (\<lambda>x y. f y < f x) (take n xs)"
      using True cmp by (auto simp: n xs)
    then show ?thesis using d by (simp add: run_def filter_rev_strict)
  next
    case False
    with nd have "\<not> d" by (simp add: count_run_def xs)
    then show ?thesis by (simp add: run_def)
  qed
qed

text \<open>
  Where the comparison orders the elements by a key, the model of \<^verbatim>\<open>list.sort\<close> computes the
  stable sort by that key.
\<close>

theorem timsort_sort_key:
  assumes ag: "orders_by lt f (set xs)"
  shows "timsort lt xs = sort_key f xs"
proof (cases "length xs < 2")
  case True
  then have "xs = [] \<or> (\<exists>x. xs = [x])" by (cases xs; cases "tl xs") auto
  then show ?thesis by (auto simp: timsort_def)
next
  case False
  obtain n d where nd: "count_run lt xs = (n, d)" by (cases "count_run lt xs")
  define run where "run = (if d then rev (take n xs) else take n xs)"
  have ts: "timsort lt xs = binarysort lt run (drop n xs)"
    using False nd by (simp add: timsort_def run_def)
  have so: "sorted (map f run)"
    and fr: "\<And>k. filter (\<lambda>x. f x = k) run = filter (\<lambda>x. f x = k) (take n xs)"
    and su: "set run \<union> set (drop n xs) = set xs"
    unfolding run_def using first_run [OF ag False nd] by simp_all
  have ag': "orders_by lt f (set run \<union> set (drop n xs))"
    unfolding su by (rule ag)
  from binarysort_sorted_stable [OF ag' so]
  have S: "sorted (map f (timsort lt xs))"
    and St: "\<And>k. filter (\<lambda>x. f x = k) (timsort lt xs)
        = filter (\<lambda>x. f x = k) run @ filter (\<lambda>x. f x = k) (drop n xs)"
    unfolding ts by blast+
  have St': "filter (\<lambda>x. f x = k) (timsort lt xs) = filter (\<lambda>x. f x = k) xs" for k
  proof -
    have "filter (\<lambda>x. f x = k) (take n xs) @ filter (\<lambda>x. f x = k) (drop n xs)
        = filter (\<lambda>x. f x = k) xs"
      unfolding filter_append [symmetric] by simp
    then show ?thesis by (simp add: St fr)
  qed
  show ?thesis
  proof (rule properties_for_sort_key [symmetric])
    show "mset (timsort lt xs) = mset xs" by (rule mset_timsort)
    show "sorted (map f (timsort lt xs))" by (rule S)
    fix k
    have "(\<lambda>x. f k = f x) = (\<lambda>x. f x = f k)" by auto
    then show "filter (\<lambda>x. f k = f x) (timsort lt xs) = filter (\<lambda>x. f k = f x) xs"
      by (simp add: St')
  qed
qed

section \<open>Facts about the enricher\<close>


lemma gs_idx_10: "gs_idx = 10"
  by (simp add: gs_idx_def FINAL_HEADER_def)

lemma orientation_13:
  "length base = 13 \<Longrightarrow>
   orientation F base = Inr (if is_plus F base then ''plus'' else ''minus'')"
  by (auto simp: orientation_def bind_err_def index_def is_plus_def split: option.splits)

lemma enrich_row_13:
  "length base = 13 \<Longrightarrow> enrich_row F genes clm base = Inr (enriched F genes clm base)"
  by (simp add: enrich_row_def orientation_13 bind_err_def index_def list_insert_def
      IDX_EVALUE_def enriched_def Let_def split: prod.splits option.splits)

lemma length_enriched: "length base = 13 \<Longrightarrow> length (enriched F genes clm base) = 20"
  by (simp add: enriched_def Let_def split: prod.splits)

lemma enriched_18:
  "length base = 13 \<Longrightarrow> enriched F genes clm base ! 18 = (if is_plus F base then ''plus'' else ''minus'')"
  by (simp add: enriched_def Let_def nth_append split: prod.splits)



text \<open>
  C6. For a row of 13 fields the orientation is \<^verbatim>\<open>"plus"\<close> exactly when fields 8 and 9 both
  read as floats and the first is strictly less than the second, and \<^verbatim>\<open>"minus"\<close> in every
  other case; it is what the enriched row holds in the column headed \<^verbatim>\<open>orientation\<close>.
\<close>

theorem C6_orientation:
  assumes "length base = 13"
  shows "orientation F base = Inr (if is_plus F base then ''plus'' else ''minus'')
    \<and> (\<exists>r. enrich_row F genes contig_len_map base = Inr r
           \<and> r ! 18 = (if is_plus F base then ''plus'' else ''minus''))
    \<and> FINAL_HEADER ! 18 = ''orientation''"
  using assms by (simp add: orientation_13 enrich_row_13 enriched_18 FINAL_HEADER_def)

theorem C6_orientation_witness:
  "orientation py_ops [''g1'', ''ctgA'', ''99.0'', ''600'', ''0'', ''0'', ''1'', ''600'', ''100'', ''200'',
                       ''0.0'', ''1000'', ''1000''] = Inr ''plus''
   \<and> orientation py_ops [''g1'', ''ctgA'', ''99.0'', ''600'', ''0'', ''0'', ''1'', ''600'', ''200'', ''100'',
                       ''0.0'', ''1000'', ''1000''] = Inr ''minus''
   \<and> orientation py_ops [''g1'', ''ctgA'', ''99.0'', ''600'', ''0'', ''0'', ''1'', ''600'', ''NA'', ''100'',
                       ''0.0'', ''1000'', ''1000''] = Inr ''minus''"
proof -
  let ?a = "[''g1'', ''ctgA'', ''99.0'', ''600'', ''0'', ''0'', ''1'', ''600'', ''100'', ''200'',
             ''0.0'', ''1000'', ''1000'']"
  let ?b = "[''g1'', ''ctgA'', ''99.0'', ''600'', ''0'', ''0'', ''1'', ''600'', ''200'', ''100'',
             ''0.0'', ''1000'', ''1000'']"
  let ?c = "[''g1'', ''ctgA'', ''99.0'', ''600'', ''0'', ''0'', ''1'', ''600'', ''NA'', ''100'',
             ''0.0'', ''1000'', ''1000'']"
  have fl: "float_of_str py_ops ''100'' = Some (Finite 100)"
    "float_of_str py_ops ''200'' = Some (Finite 200)" "float_of_str py_ops ''NA'' = None"
    by (simp_all add: py_eval)
  have pa: "is_plus py_ops ?a" by (simp add: is_plus_def fl flt_def)
  have pb: "\<not> is_plus py_ops ?b" by (simp add: is_plus_def fl flt_def)
  have pc: "\<not> is_plus py_ops ?c" by (simp add: is_plus_def fl)
  have la: "length ?a = 13" and lb: "length ?b = 13" and lc: "length ?c = 13" by simp_all
  show ?thesis
    using C6_orientation [OF la, of py_ops Map.empty Map.empty]
      C6_orientation [OF lb, of py_ops Map.empty Map.empty]
      C6_orientation [OF lc, of py_ops Map.empty Map.empty] pa pb pc
    by simp
qed


lemma flt_fpos: "a \<noteq> NaN \<Longrightarrow> b \<noteq> NaN \<Longrightarrow> flt a b = (fpos a < fpos b)"
  by (cases a; cases b) (simp_all add: flt_def fpos_def)

lemma flt_not_NaN: "flt a b \<Longrightarrow> a \<noteq> NaN \<and> b \<noteq> NaN"
  by (cases a; cases b) (simp_all add: flt_def)

lemma enrich_loop_13:
  "\<forall>r\<in>set rows. length r = 13 \<Longrightarrow>
   enrich_loop F G clm out rows = Inr (out @ map (enriched F G clm) rows)"
  by (induction rows arbitrary: out) (simp_all add: enrich_row_13 bind_err_def)

lemma srt_20: "length r = 20 \<Longrightarrow> srt F r = Inr (sort_key_of F r)"
  by (simp add: srt_def gs_idx_10 index_def bind_err_def sort_key_of_def)

lemma all_keys_srt:
  "\<forall>r\<in>set rows. length r = 20 \<Longrightarrow>
   all_keys (srt F) rows = Inr (map (\<lambda>r. (sort_key_of F r, r)) rows)"
  by (induction rows) (simp_all add: srt_20 bind_err_def)

lemma list_sort_rows:
  "\<forall>r\<in>set rows. length r = 20 \<Longrightarrow> list_sort (srt F) rows = Inr (sorted_rows F rows)"
  by (simp add: list_sort_def all_keys_srt bind_err_def sorted_rows_def)

lemma enrich_and_write_13:
  assumes "\<forall>r\<in>set base_rows. length r = 13" and "load_genes F gf = Inr G"
  shows "enrich_and_write F base_rows clm gf =
    Inr (FINAL_HEADER # sorted_rows F (map (enriched F G clm) (dedup_rows base_rows)))"
proof -
  have d13: "\<forall>r\<in>set (dedup_rows base_rows). length r = 13"
    using assms(1) by (simp add: set_dedup_rows)
  have e20: "\<forall>r\<in>set (map (enriched F G clm) (dedup_rows base_rows)). length r = 20"
    using d13 by (simp add: length_enriched)
  show ?thesis
    unfolding enrich_and_write_def assms(2) bind_err_def
    by (simp add: enrich_loop_13 [OF d13] list_sort_rows [OF e20])
qed

lemma enrich_and_write_fail:
  "load_genes F gf = Inl e \<Longrightarrow> enrich_and_write F base_rows clm gf = Inl e"
  by (simp add: enrich_and_write_def bind_err_def)

lemma mset_sorted_rows: "mset (sorted_rows F rows) = mset rows"
proof -
  have "mset (map snd (timsort lt (map (\<lambda>r. (k r, r)) rows))) = mset rows" for lt and k :: "row \<Rightarrow> pyfloat"
  proof -
    have "mset (map snd (timsort lt (map (\<lambda>r. (k r, r)) rows)))
        = image_mset snd (mset (timsort lt (map (\<lambda>r. (k r, r)) rows)))" by simp
    also have "\<dots> = image_mset snd (mset (map (\<lambda>r. (k r, r)) rows))"
      by (simp only: mset_timsort)
    also have "\<dots> = mset rows" by (simp add: image_mset.compositionality comp_def)
    finally show ?thesis .
  qed
  then show ?thesis by (simp add: sorted_rows_def)
qed

lemma base_of_enriched:
  "length r = 13 \<Longrightarrow> take 10 (enriched F G clm r) @ take 3 (drop 12 (enriched F G clm r)) = r"
proof -
  assume len: "length r = 13"
  have "take 10 r @ drop 10 r = r" by simp
  then show ?thesis using len
    by (simp add: enriched_def Let_def split: prod.splits)
qed

lemma inj_enriched: "inj_on (enriched F G clm) {r. length r = 13}"
proof (rule inj_onI)
  fix x y assume "x \<in> {r. length r = 13}" "y \<in> {r. length r = 13}"
    and eq: "enriched F G clm x = enriched F G clm y"
  then have lx: "length x = 13" and ly: "length y = 13" by simp_all
  have "x = take 10 (enriched F G clm x) @ take 3 (drop 12 (enriched F G clm x))"
    by (rule base_of_enriched [OF lx, symmetric])
  also have "\<dots> = take 10 (enriched F G clm y) @ take 3 (drop 12 (enriched F G clm y))"
    by (simp only: eq)
  also have "\<dots> = y"
    by (rule base_of_enriched [OF ly])
  finally show "x = y" .
qed

lemma flt_irrefl: "\<not> flt a a"
  by (cases a) (simp_all add: flt_def)

lemma sorted_rows_perm:
  assumes perm: "mset rows' = mset rows" and un: "untied F rows"
  shows "sorted_rows F rows' = sorted_rows F rows"
proof -
  let ?lt = "\<lambda>a b :: pyfloat \<times> row. flt (fst a) (fst b)"
  let ?f = "\<lambda>p :: pyfloat \<times> row. fpos (fst p)"
  let ?K = "\<lambda>rs. map (\<lambda>r. (sort_key_of F r, r)) rs"
  have sets: "set rows' = set rows" using perm by (rule mset_eq_setD)
  have pair: "flt (fst p) (fst q) = (fpos (fst p) < fpos (fst q)) \<and> (p \<noteq> q \<longrightarrow> fpos (fst p) \<noteq> fpos (fst q))"
    if p: "p \<in> set (?K rows)" and q: "q \<in> set (?K rows)" for p q
  proof (cases "p = q")
    case True
    then show ?thesis by (simp add: flt_irrefl)
  next
    case False
    from p q obtain r r' where r: "r \<in> set rows" "p = (sort_key_of F r, r)"
      and r': "r' \<in> set rows" "q = (sort_key_of F r', r')" by auto
    with False have "r \<noteq> r'" by auto
    with un r r' have cmp: "flt (fst p) (fst q) \<or> flt (fst q) (fst p)"
      by (auto simp: untied_def)
    then have nn: "fst p \<noteq> NaN" "fst q \<noteq> NaN" using flt_not_NaN by blast+
    have "flt (fst p) (fst q) = (fpos (fst p) < fpos (fst q))"
      and "flt (fst q) (fst p) = (fpos (fst q) < fpos (fst p))"
      using nn by (simp_all add: flt_fpos)
    with cmp False show ?thesis by auto
  qed
  have ob: "orders_by ?lt ?f (set (?K rows))"
    unfolding orders_by_def using pair by blast
  have ob': "orders_by ?lt ?f (set (?K rows'))"
    using ob sets by simp
  have inj: "inj_on ?f (set (?K rows'))"
    unfolding inj_on_def using pair sets by (metis (no_types, lifting) set_map)
  have mk: "mset (?K rows') = mset (?K rows)"
    using perm by (metis mset_map)
  have "timsort ?lt (?K rows') = sort_key ?f (?K rows')"
    by (rule timsort_sort_key [OF ob'])
  also have "\<dots> = sort_key ?f (?K rows)"
    by (rule sort_key_eq_sort_key [OF mk inj])
  also have "\<dots> = timsort ?lt (?K rows)"
    by (rule timsort_sort_key [OF ob, symmetric])
  finally show ?thesis by (simp add: sorted_rows_def)
qed

lemma insort_key_keyed:
  fixes g :: "'k \<Rightarrow> 'o::linorder"
  assumes "\<forall>p\<in>set ps. fst p = k (snd p)"
  shows "map snd (insort_key (\<lambda>p. g (fst p)) (k x, x) ps) = insort_key (\<lambda>r. g (k r)) x (map snd ps)"
  using assms by (induction ps) auto

lemma sort_key_keyed:
  fixes g :: "'k \<Rightarrow> 'o::linorder"
  shows "map snd (sort_key (\<lambda>p. g (fst p)) (map (\<lambda>r. (k r, r)) rows)) = sort_key (\<lambda>r. g (k r)) rows"
proof (induction rows)
  case Nil
  show ?case by simp
next
  case (Cons x rows)
  have "\<forall>p\<in>set (sort_key (\<lambda>p. g (fst p)) (map (\<lambda>r. (k r, r)) rows)). fst p = k (snd p)"
    by auto
  from insort_key_keyed [OF this, of g x] Cons.IH show ?case by simp
qed

text \<open>
  When no sort key is NaN the rows come out in the stable ascending sort by the key,
  a genomic start that does not read as a float counting as positive infinity.
\<close>

theorem sorted_rows_stable_sort:
  assumes "\<forall>r\<in>set rows. sort_key_of F r \<noteq> NaN"
  shows "sorted_rows F rows = sort_key (\<lambda>r. fpos (sort_key_of F r)) rows"
proof -
  let ?lt = "\<lambda>a b :: pyfloat \<times> row. flt (fst a) (fst b)"
  let ?K = "map (\<lambda>r. (sort_key_of F r, r)) rows"
  have "orders_by ?lt (\<lambda>p. fpos (fst p)) (set ?K)"
    unfolding orders_by_def using assms by (auto simp: flt_fpos)
  then have "timsort ?lt ?K = sort_key (\<lambda>p. fpos (fst p)) ?K"
    by (rule timsort_sort_key)
  then show ?thesis
    by (simp add: sorted_rows_def sort_key_keyed)
qed

section \<open>The order of the output rows\<close>
lemma example_genes_loaded: "load_genes py_ops example_genes = Inr example_table"
proof -
  have fl: "float_of_str py_ops ''3'' = Some (Finite 3)" "float_of_str py_ops ''9'' = Some (Finite 9)"
    "float_of_str py_ops ''1'' = Some (Finite 1)" "float_of_str py_ops ''2'' = Some (Finite 2)"
    by (simp_all add: py_eval)
  show ?thesis
    by (simp add: load_genes_def example_genes_def DictReader_def dict_of_def dict_get_def
        py_or_def truthy_def float_field_def bind_err_def fl example_table_def)
qed

lemma length_hit: "length (hit q s) = 13"
  by (simp add: hit_def)

lemma example_strs:
  "str_of_float py_ops (Finite 3) = ''3.0''" "str_of_float py_ops (Finite 9) = ''9.0''"
  "str_of_float py_ops (Finite 1) = ''1.0''" "str_of_float py_ops (Finite 2) = ''2.0''"
  "str_of_float py_ops NaN = ''nan''"
  by (simp_all add: py_eval)

lemma example_floats:
  "float_of_str py_ops ''3.0'' = Some (Finite 3)" "float_of_str py_ops ''1.0'' = Some (Finite 1)"
  "float_of_str py_ops ''nan'' = Some NaN" "float_of_str py_ops ''100'' = Some (Finite 100)"
  "float_of_str py_ops ''700'' = Some (Finite 700)"
  by (simp_all add: py_eval)

lemma hit_plus: "is_plus py_ops (hit q s)"
  by (simp add: is_plus_def hit_def example_floats flt_def)

lemma enriched_g1:
  "enriched py_ops example_table Map.empty (hit ''g1'' s) =
     [''g1'', s, ''99.0'', ''600'', ''0'', ''0'', ''1'', ''600'', ''100'', ''700'', ''3.0'', ''9.0'',
      ''0.0'', ''1000'', ''1000'', ''sc1'', ''3.0'', ''9.0'', ''plus'', ''nan'']"
  by (simp add: enriched_def hit_plus) (simp add: hit_def example_table_def str_of_opt_def example_strs)

lemma enriched_g2:
  "enriched py_ops example_table Map.empty (hit ''g2'' s) =
     [''g2'', s, ''99.0'', ''600'', ''0'', ''0'', ''1'', ''600'', ''100'', ''700'', ''1.0'', ''2.0'',
      ''0.0'', ''1000'', ''1000'', ''sc1'', ''1.0'', ''2.0'', ''plus'', ''nan'']"
  by (simp add: enriched_def hit_plus) (simp add: hit_def example_table_def str_of_opt_def example_strs)

lemma enriched_gX:
  "enriched py_ops example_table Map.empty (hit ''gX'' s) =
     [''gX'', s, ''99.0'', ''600'', ''0'', ''0'', ''1'', ''600'', ''100'', ''700'', ''nan'', ''nan'',
      ''0.0'', ''1000'', ''1000'', [], ''nan'', ''nan'', ''plus'', ''nan'']"
  by (simp add: enriched_def hit_plus) (simp add: hit_def example_table_def str_of_opt_def example_strs)

lemma example_keys:
  "sort_key_of py_ops (enriched py_ops example_table Map.empty (hit ''g1'' s)) = Finite 3"
  "sort_key_of py_ops (enriched py_ops example_table Map.empty (hit ''gX'' s)) = NaN"
  "sort_key_of py_ops (enriched py_ops example_table Map.empty (hit ''g2'' s)) = Finite 1"
  by (simp_all add: sort_key_of_def enriched_g1 enriched_g2 enriched_gX example_floats)

lemma example_enriched_neq:
  "enriched py_ops example_table Map.empty (hit ''g1'' ''ctgA'')
     \<noteq> enriched py_ops example_table Map.empty (hit ''g1'' ''ctgB'')"
  "enriched py_ops example_table Map.empty (hit ''g1'' ''ctgA'')
     \<noteq> enriched py_ops example_table Map.empty (hit ''g2'' ''ctgC'')"
  by (simp_all add: enriched_g1 enriched_g2)

lemma example_dedup3:
  "dedup_rows [hit ''g1'' ''ctgA'', hit ''gX'' ''ctgB'', hit ''g2'' ''ctgC'']
     = [hit ''g1'' ''ctgA'', hit ''gX'' ''ctgB'', hit ''g2'' ''ctgC'']"
  by (simp add: dedup_rows_def hit_def)

lemma example_dedup2:
  "dedup_rows [hit ''g1'' ''ctgA'', hit ''g1'' ''ctgB''] = [hit ''g1'' ''ctgA'', hit ''g1'' ''ctgB'']"
  "dedup_rows [hit ''g1'' ''ctgB'', hit ''g1'' ''ctgA''] = [hit ''g1'' ''ctgB'', hit ''g1'' ''ctgA'']"
  "dedup_rows [hit ''g1'' ''ctgA'', hit ''g2'' ''ctgC''] = [hit ''g1'' ''ctgA'', hit ''g2'' ''ctgC'']"
  by (simp_all add: dedup_rows_def hit_def)

lemma sorted_rows_eval:
  "sorted_rows F [a, b] =
     (if flt (sort_key_of F b) (sort_key_of F a) then [b, a] else [a, b])"
  by (simp add: sorted_rows_def timsort_def count_run_def)

lemma sorted_rows_run3:
  "\<not> flt (sort_key_of F b) (sort_key_of F a) \<Longrightarrow> \<not> flt (sort_key_of F c) (sort_key_of F b) \<Longrightarrow>
   sorted_rows F [a, b, c] = [a, b, c]"
  by (simp add: sorted_rows_def timsort_def count_run_def)

text \<open>
  C2. The enricher on three hits, the gene of the second of which has no annotation: the
  genomic starts of the output rows are 3.0, nan and 1.0 in this order. The sort keys of
  the first and third rows are the floats 3 and 1, so a row stands before a row of a
  strictly smaller key, and the output is not in ascending order of the genomic start.
\<close>

theorem C2_nan_row_breaks_ascending_order:
  "\<exists>r1 r2 r3.
     enrich_and_write py_ops [hit ''g1'' ''ctgA'', hit ''gX'' ''ctgB'', hit ''g2'' ''ctgC'']
       Map.empty example_genes = Inr [FINAL_HEADER, r1, r2, r3]
     \<and> map (\<lambda>r. r ! 10) [r1, r2, r3] = [''3.0'', ''nan'', ''1.0'']
     \<and> map (srt py_ops) [r1, r2, r3] = [Inr (Finite 3), Inr NaN, Inr (Finite 1)]
     \<and> flt (Finite 1) (Finite 3)"
proof -
  let ?e1 = "enriched py_ops example_table Map.empty (hit ''g1'' ''ctgA'')"
  let ?eX = "enriched py_ops example_table Map.empty (hit ''gX'' ''ctgB'')"
  let ?e2 = "enriched py_ops example_table Map.empty (hit ''g2'' ''ctgC'')"
  have cols: "\<forall>r\<in>set [hit ''g1'' ''ctgA'', hit ''gX'' ''ctgB'', hit ''g2'' ''ctgC'']. length r = 13"
    by (simp add: length_hit)
  have so: "sorted_rows py_ops [?e1, ?eX, ?e2] = [?e1, ?eX, ?e2]"
    by (rule sorted_rows_run3) (simp_all add: example_keys flt_def)
  have res: "enrich_and_write py_ops [hit ''g1'' ''ctgA'', hit ''gX'' ''ctgB'', hit ''g2'' ''ctgC'']
       Map.empty example_genes = Inr [FINAL_HEADER, ?e1, ?eX, ?e2]"
    unfolding enrich_and_write_13 [OF cols example_genes_loaded] example_dedup3
    by (simp add: so)
  have cols10: "map (\<lambda>r. r ! 10) [?e1, ?eX, ?e2] = [''3.0'', ''nan'', ''1.0'']"
    by (simp add: enriched_g1 enriched_g2 enriched_gX)
  have keys: "map (srt py_ops) [?e1, ?eX, ?e2] = [Inr (Finite 3), Inr NaN, Inr (Finite 1)]"
    by (simp add: srt_20 length_enriched length_hit example_keys)
  have lt: "flt (Finite 1) (Finite 3)" by (simp add: flt_def)
  show ?thesis
  proof (rule exI [of _ ?e1], rule exI [of _ ?eX], rule exI [of _ ?e2], intro conjI)
    show "enrich_and_write py_ops [hit ''g1'' ''ctgA'', hit ''gX'' ''ctgB'', hit ''g2'' ''ctgC'']
       Map.empty example_genes = Inr [FINAL_HEADER, ?e1, ?eX, ?e2]" by (rule res)
    show "map (\<lambda>r. r ! 10) [?e1, ?eX, ?e2] = [''3.0'', ''nan'', ''1.0'']" by (rule cols10)
    show "map (srt py_ops) [?e1, ?eX, ?e2] = [Inr (Finite 3), Inr NaN, Inr (Finite 1)]"
      by (rule keys)
    show "flt (Finite 1) (Finite 3)" by (rule lt)
  qed
qed

theorem C3_tied_rows_keep_input_order:
  "mset [hit ''g1'' ''ctgB'', hit ''g1'' ''ctgA''] = mset [hit ''g1'' ''ctgA'', hit ''g1'' ''ctgB'']
   \<and> enrich_and_write py_ops [hit ''g1'' ''ctgB'', hit ''g1'' ''ctgA''] Map.empty example_genes
     \<noteq> enrich_and_write py_ops [hit ''g1'' ''ctgA'', hit ''g1'' ''ctgB''] Map.empty example_genes"
proof -
  let ?a = "enriched py_ops example_table Map.empty (hit ''g1'' ''ctgA'')"
  let ?b = "enriched py_ops example_table Map.empty (hit ''g1'' ''ctgB'')"
  have cols: "\<forall>r\<in>set [hit ''g1'' ''ctgA'', hit ''g1'' ''ctgB'']. length r = 13"
    "\<forall>r\<in>set [hit ''g1'' ''ctgB'', hit ''g1'' ''ctgA'']. length r = 13"
    by (simp_all add: length_hit)
  have ab: "enrich_and_write py_ops [hit ''g1'' ''ctgA'', hit ''g1'' ''ctgB''] Map.empty example_genes
      = Inr [FINAL_HEADER, ?a, ?b]"
    unfolding enrich_and_write_13 [OF cols(1) example_genes_loaded] example_dedup2
    by (simp add: sorted_rows_eval example_keys flt_def)
  have ba: "enrich_and_write py_ops [hit ''g1'' ''ctgB'', hit ''g1'' ''ctgA''] Map.empty example_genes
      = Inr [FINAL_HEADER, ?b, ?a]"
    unfolding enrich_and_write_13 [OF cols(2) example_genes_loaded] example_dedup2
    by (simp add: sorted_rows_eval example_keys flt_def)
  have "mset [hit ''g1'' ''ctgB'', hit ''g1'' ''ctgA''] = mset [hit ''g1'' ''ctgA'', hit ''g1'' ''ctgB'']"
    by simp
  then show ?thesis
    unfolding ab ba using example_enriched_neq(1) by simp
qed


text \<open>
  C3 (amended). For rows of 13 fields and a permutation of them, either both runs of the
  enricher end with the same exception (that of loading the annotation file), or both
  write the header and the same rows, as multisets; and when no two different output
  rows tie in the sort key, both write the same sequence of rows.
\<close>

theorem C3_permuted_input_same_rows:
  assumes perm: "mset ys = mset xs" and cols: "\<forall>r\<in>set xs. length r = 13"
  shows "(\<exists>e. enrich_and_write F xs clm gf = Inl e \<and> enrich_and_write F ys clm gf = Inl e)
    \<or> (\<exists>a b. enrich_and_write F xs clm gf = Inr (FINAL_HEADER # a)
            \<and> enrich_and_write F ys clm gf = Inr (FINAL_HEADER # b)
            \<and> mset b = mset a \<and> (untied F a \<longrightarrow> b = a))"
proof (cases "load_genes F gf")
  case (Inl e)
  then show ?thesis by (simp add: enrich_and_write_fail)
next
  case (Inr G)
  let ?A = "map (enriched F G clm) (dedup_rows xs)"
  let ?B = "map (enriched F G clm) (dedup_rows ys)"
  have sets: "set ys = set xs" using perm by (rule mset_eq_setD)
  have cols': "\<forall>r\<in>set ys. length r = 13" using cols sets by simp
  have "mset (dedup_rows ys) = mset (dedup_rows xs)"
    using set_eq_iff_mset_eq_distinct [OF distinct_dedup_rows distinct_dedup_rows, of ys xs]
    by (simp add: set_dedup_rows sets)
  then have mAB: "mset ?B = mset ?A" by (metis mset_map)
  have ra: "enrich_and_write F xs clm gf = Inr (FINAL_HEADER # sorted_rows F ?A)"
    by (rule enrich_and_write_13 [OF cols Inr])
  have rb: "enrich_and_write F ys clm gf = Inr (FINAL_HEADER # sorted_rows F ?B)"
    by (rule enrich_and_write_13 [OF cols' Inr])
  have ms: "mset (sorted_rows F ?B) = mset (sorted_rows F ?A)"
    by (simp only: mset_sorted_rows mAB)
  have eq: "sorted_rows F ?B = sorted_rows F ?A" if un: "untied F (sorted_rows F ?A)"
  proof -
    have "set (sorted_rows F ?A) = set ?A"
      using mset_sorted_rows [of F ?A] by (rule mset_eq_setD)
    with un have "untied F ?A" by (simp add: untied_def)
    with mAB show ?thesis by (rule sorted_rows_perm)
  qed
  show ?thesis
    using ra rb ms eq by blast
qed

theorem C3_permuted_input_same_rows_witness:
  "enrich_and_write py_ops [hit ''g2'' ''ctgC'', hit ''g1'' ''ctgA''] Map.empty example_genes
     = enrich_and_write py_ops [hit ''g1'' ''ctgA'', hit ''g2'' ''ctgC''] Map.empty example_genes
   \<and> (\<exists>a. enrich_and_write py_ops [hit ''g1'' ''ctgA'', hit ''g2'' ''ctgC''] Map.empty example_genes
           = Inr (FINAL_HEADER # a) \<and> untied py_ops a)"
proof -
  let ?xs = "[hit ''g1'' ''ctgA'', hit ''g2'' ''ctgC'']"
  let ?ys = "[hit ''g2'' ''ctgC'', hit ''g1'' ''ctgA'']"
  let ?e1 = "enriched py_ops example_table Map.empty (hit ''g1'' ''ctgA'')"
  let ?e2 = "enriched py_ops example_table Map.empty (hit ''g2'' ''ctgC'')"
  have perm: "mset ?ys = mset ?xs" by simp
  have cols: "\<forall>r\<in>set ?xs. length r = 13" by (simp add: length_hit)
  have res: "enrich_and_write py_ops ?xs Map.empty example_genes = Inr [FINAL_HEADER, ?e2, ?e1]"
    unfolding enrich_and_write_13 [OF cols example_genes_loaded] example_dedup2
    by (simp add: sorted_rows_eval example_keys flt_def)
  have un: "untied py_ops [?e2, ?e1]"
    by (simp add: untied_def example_keys flt_def)
  from C3_permuted_input_same_rows [OF perm cols, of py_ops Map.empty example_genes] res un
  have "enrich_and_write py_ops ?ys Map.empty example_genes = Inr [FINAL_HEADER, ?e2, ?e1]"
    by auto
  with res un show ?thesis by auto
qed

section \<open>Facts about the run\<close>



lemma enrich_and_write_empty:
  "load_genes F gf = Inr G \<Longrightarrow> enrich_and_write F [] clm gf = Inr [FINAL_HEADER]"
proof -
  assume lg: "load_genes F gf = Inr G"
  have "\<forall>r\<in>set ([] :: row list). length r = 13" by simp
  from enrich_and_write_13 [OF this lg, of clm] show ?thesis
    by (simp add: dedup_rows_def sorted_rows_def timsort_def)
qed








end
